theory Spec2Isabelle
  imports Complex_Main "HOL-Library.AList"
begin

text \<open>
  A model of \<open>src/lib/sankeyDataTransform.ts\<close> of the Sigma Sankey plugin: the row
  transform, the duplicate-edge aggregator, the node layering and the graph validator, with
  the properties that its specification states about them.
\<close>

section \<open>JavaScript values used by the Sankey data pipeline\<close>

text \<open>
  A JavaScript number is not-a-number, a finite value or one of the two infinities. Every
  finite double is a rational, and the comparisons with 0 below are exact on doubles. The
  addition of two doubles rounds and overflows, so it is not defined here: the functions
  that add take it as the parameter \<open>addNum\<close>, and what is proved about them holds for
  every addition, the one of IEEE doubles included.
\<close>

datatype number = NaN | Num rat | Infinity | NegInfinity

text \<open>The comparison \<open>n <= 0\<close>; every comparison with \<open>NaN\<close> is false.\<close>

fun num_le0 :: "number \<Rightarrow> bool" where
  "num_le0 NaN = False"
| "num_le0 (Num q) = (q \<le> 0)"
| "num_le0 Infinity = False"
| "num_le0 NegInfinity = True"

text \<open>The comparison \<open>n > 0\<close>.\<close>

fun num_gt0 :: "number \<Rightarrow> bool" where
  "num_gt0 NaN = False"
| "num_gt0 (Num q) = (0 < q)"
| "num_gt0 Infinity = True"
| "num_gt0 NegInfinity = False"

text \<open>Truthiness of a number: \<open>0\<close> and \<open>NaN\<close> are falsy.\<close>

fun num_truthy :: "number \<Rightarrow> bool" where
  "num_truthy NaN = False"
| "num_truthy (Num q) = (q \<noteq> 0)"
| "num_truthy Infinity = True"
| "num_truthy NegInfinity = True"

text \<open>
  A link end is typed \<open>string | number\<close>. \<open>String(x)\<close> is the identity on a string;
  on a number it is the built-in number-to-string conversion, which the functions below
  take as the parameter \<open>nts\<close>.
\<close>

datatype label = LStr string | LNum number

fun String :: "(number \<Rightarrow> string) \<Rightarrow> label \<Rightarrow> string" where
  "String nts (LStr s) = s"
| "String nts (LNum n) = nts n"

text \<open>Strict equality \<open>===\<close> of two link ends: no coercion, and \<open>NaN\<close> equals nothing.\<close>

fun strictEq :: "label \<Rightarrow> label \<Rightarrow> bool" where
  "strictEq (LStr a) (LStr b) = (a = b)"
| "strictEq (LNum a) (LNum b) = (a \<noteq> NaN \<and> a = b)"
| "strictEq _ _ = False"

section \<open>Data model (types/sigma.ts)\<close>

text \<open>
  \<open>SankeyNode\<close> and \<open>SankeyLink\<close>. An optional property is an \<open>option\<close> field. The
  interface \<open>SankeyLink\<close> declares \<open>source\<close>, \<open>target\<close> and \<open>value\<close>; the chart component
  reads a further optional property \<open>id\<close> from a link, so the record has the field
  \<open>link_id\<close>, which is \<open>None\<close> on an object that has no such property.
\<close>

record node =
  node_id :: "string option"
  name :: string
  node_value :: "number option"
  depth :: "number option"

record link =
  source :: label
  target :: label
  val :: number
  link_id :: "string option"

record sankeyChartData =
  nodes :: "node list"
  links :: "link list"

section \<open>aggregateLinks\<close>

text \<open>
  The key of a link is the template literal \<open>`${link.source}->${link.target}`\<close>.
\<close>

definition linkKey :: "(number \<Rightarrow> string) \<Rightarrow> link \<Rightarrow> string" where
  "linkKey nts l = String nts (source l) @ ''->'' @ String nts (target l)"

text \<open>
  \<open>linkMap\<close> is a JavaScript \<open>Map\<close>: an association list in insertion order, where
  \<open>set\<close> on a present key keeps the key's position (\<open>AList.update\<close>). The body of the
  \<open>forEach\<close>: a present key has the value of its stored copy increased in place
  (\<open>value += link.value\<close>, with the addition \<open>addNum\<close>), an absent key gets a copy of the
  link.
\<close>

definition aggregateStep ::
  "(number \<Rightarrow> string) \<Rightarrow> (number \<Rightarrow> number \<Rightarrow> number) \<Rightarrow>
   (string \<times> link) list \<Rightarrow> link \<Rightarrow> (string \<times> link) list" where
  "aggregateStep nts addNum linkMap l =
     (let key = linkKey nts l in
      case map_of linkMap key of
        Some e \<Rightarrow> AList.update key (e\<lparr>val := addNum (val e) (val l)\<rparr>) linkMap
      | None \<Rightarrow> AList.update key l linkMap)"

definition aggregateLinks ::
  "(number \<Rightarrow> string) \<Rightarrow> (number \<Rightarrow> number \<Rightarrow> number) \<Rightarrow> link list \<Rightarrow> link list" where
  "aggregateLinks nts addNum ls = map snd (foldl (aggregateStep nts addNum) [] ls)"

text \<open>The ordered pair that identifies an edge.\<close>

definition endpoints :: "link \<Rightarrow> label \<times> label" where
  "endpoints l = (source l, target l)"

section \<open>transformSigmaDataToSankey\<close>

text \<open>
  A cell of a \<open>SigmaData\<close> column is \<open>string | number | boolean | null\<close>. A
  \<open>SigmaData\<close> object is a finite map from column names to arrays (properties inherited
  from the prototype are outside the model). The data object and each column selector may
  be missing, which is \<open>None\<close>.
\<close>

datatype cell = CStr string | CNum number | CBool bool | CNull

type_synonym sigmaData = "string \<Rightarrow> cell list option"

fun cell_truthy :: "cell \<Rightarrow> bool" where
  "cell_truthy (CStr s) = (s \<noteq> [])"
| "cell_truthy (CNum n) = num_truthy n"
| "cell_truthy (CBool b) = b"
| "cell_truthy CNull = False"

text \<open>\<open>String(c)\<close> on a cell, with the built-in number-to-string conversion \<open>nts\<close>.\<close>

fun cellToString :: "(number \<Rightarrow> string) \<Rightarrow> cell \<Rightarrow> string" where
  "cellToString nts (CStr s) = s"
| "cellToString nts (CNum n) = nts n"
| "cellToString nts (CBool b) = (if b then ''true'' else ''false'')"
| "cellToString nts CNull = ''null''"

text \<open>\<open>Number(c)\<close> on a cell, with the built-in string-to-number conversion \<open>stn\<close>.\<close>

fun cellToNumber :: "(string \<Rightarrow> number) \<Rightarrow> cell \<Rightarrow> number" where
  "cellToNumber stn (CStr s) = stn s"
| "cellToNumber stn (CNum n) = n"
| "cellToNumber stn (CBool b) = Num (if b then 1 else 0)"
| "cellToNumber stn CNull = Num 0"

text \<open>
  \<open>String.prototype.trim\<close> removes white space and line terminators at both ends. A
  \<open>char\<close> is one of 256 code units; the white space among them is listed here.
\<close>

definition isWhiteSpace :: "char \<Rightarrow> bool" where
  "isWhiteSpace c \<longleftrightarrow>
     c \<in> {CHR 0x09, CHR 0x0A, CHR 0x0B, CHR 0x0C, CHR 0x0D, CHR 0x20, CHR 0xA0}"

definition trim :: "string \<Rightarrow> string" where
  "trim s = rev (dropWhile isWhiteSpace (rev (dropWhile isWhiteSpace s)))"

text \<open>\<open>String(c || '').trim()\<close> and \<open>Number(c) || 0\<close>.\<close>

definition rowLabel :: "(number \<Rightarrow> string) \<Rightarrow> cell \<Rightarrow> string" where
  "rowLabel nts c = trim (cellToString nts (if cell_truthy c then c else CStr []))"

definition rowValue :: "(string \<Rightarrow> number) \<Rightarrow> cell \<Rightarrow> number" where
  "rowValue stn c = (let n = cellToNumber stn c in if num_truthy n then n else Num 0)"

text \<open>\<open>Set.prototype.add\<close> on a set kept in insertion order.\<close>

definition set_add :: "'a \<Rightarrow> 'a list \<Rightarrow> 'a list" where
  "set_add x xs = (if x \<in> set xs then xs else xs @ [x])"

text \<open>
  The body of the row loop at index \<open>i\<close>, on the pair of \<open>nodeNames\<close> and \<open>links\<close>.
  The pushed object literal has the properties \<open>source\<close>, \<open>target\<close> and \<open>value\<close> only.
\<close>

definition ingestRow ::
  "(number \<Rightarrow> string) \<Rightarrow> (string \<Rightarrow> number) \<Rightarrow> cell list \<Rightarrow> cell list \<Rightarrow> cell list \<Rightarrow>
   string list \<times> link list \<Rightarrow> nat \<Rightarrow> string list \<times> link list" where
  "ingestRow nts stn sourceData targetData valueData acc i =
     (let src = rowLabel nts (sourceData ! i);
          tgt = rowLabel nts (targetData ! i);
          v = rowValue stn (valueData ! i)
      in if src = [] \<or> tgt = [] \<or> num_le0 v then acc
         else (set_add tgt (set_add src (fst acc)),
               snd acc @ [\<lparr>source = LStr src, target = LStr tgt, val = v, link_id = None\<rparr>]))"

definition falsySelector :: "string option \<Rightarrow> bool" where
  "falsySelector c \<longleftrightarrow> (case c of None \<Rightarrow> True | Some s \<Rightarrow> s = [])"

text \<open>\<open>sigmaData[column] || []\<close>.\<close>

definition columnOrEmpty :: "sigmaData \<Rightarrow> string option \<Rightarrow> cell list" where
  "columnOrEmpty d c =
     (case c of None \<Rightarrow> []
      | Some k \<Rightarrow> (case d k of None \<Rightarrow> [] | Some xs \<Rightarrow> xs))"

definition emptyChart :: sankeyChartData where
  "emptyChart = \<lparr>nodes = [], links = []\<rparr>"

definition transformSigmaDataToSankey ::
  "(number \<Rightarrow> string) \<Rightarrow> (string \<Rightarrow> number) \<Rightarrow> sigmaData option \<Rightarrow>
   string option \<Rightarrow> string option \<Rightarrow> string option \<Rightarrow> sankeyChartData" where
  "transformSigmaDataToSankey nts stn sigmaData sourceColumn targetColumn valueColumn =
     (case sigmaData of
        None \<Rightarrow> emptyChart
      | Some d \<Rightarrow>
          if falsySelector sourceColumn \<or> falsySelector targetColumn \<or> falsySelector valueColumn
          then emptyChart
          else
            let sourceData = columnOrEmpty d sourceColumn;
                targetData = columnOrEmpty d targetColumn;
                valueData = columnOrEmpty d valueColumn
            in if length sourceData \<noteq> length targetData \<or> length sourceData \<noteq> length valueData
               then emptyChart
               else
                 let acc = foldl (ingestRow nts stn sourceData targetData valueData) ([], [])
                             [0 ..< length sourceData]
                 in \<lparr>nodes = map (\<lambda>nodeName. \<lparr>node_id = None, name = nodeName,
                                                 node_value = None, depth = None\<rparr>) (fst acc),
                     links = snd acc\<rparr>)"

text \<open>
  The call site in App.tsx: the memoised \<open>sankeyData\<close>. It passes \<open>config.idColumn\<close>
  as a fifth argument; \<open>transformSigmaDataToSankey\<close> declares four parameters, so the
  argument is dropped. Only the configuration fields that the computation reads are kept.
  The \<open>try\<close> around the call has nothing to catch, since the callee is total.
\<close>

record sigmaConfig =
  sourceColumn :: "string option"
  targetColumn :: "string option"
  valueColumn :: "string option"
  idColumn :: "string option"

definition sankeyData ::
  "(number \<Rightarrow> string) \<Rightarrow> (string \<Rightarrow> number) \<Rightarrow> (number \<Rightarrow> number \<Rightarrow> number) \<Rightarrow>
   sigmaData option \<Rightarrow> sigmaConfig \<Rightarrow> sankeyChartData" where
  "sankeyData nts stn addNum sigmaData config =
     (if sigmaData = None \<or> falsySelector (sourceColumn config) \<or>
         falsySelector (targetColumn config) \<or> falsySelector (valueColumn config)
      then emptyChart
      else
        let rawData = transformSigmaDataToSankey nts stn sigmaData
                        (sourceColumn config) (targetColumn config) (valueColumn config)
        in \<lparr>nodes = nodes rawData, links = aggregateLinks nts addNum (links rawData)\<rparr>)"

section \<open>calculateNodeDepths\<close>

text \<open>
  The mutable state of the traversal: \<open>nodeMap\<close> and \<open>inDegree\<close> are JavaScript
  \<open>Map\<close>s (association lists in insertion order), \<open>visited\<close> is a \<open>Set\<close> that is
  only tested and extended, \<open>queue\<close> is the array used as a queue.
\<close>

record layerState =
  nodeMap :: "(string \<times> node) list"
  visited :: "string set"
  inDegree :: "(string \<times> int) list"
  queue :: "string list"

text \<open>\<open>inDegree.get(k) || 0\<close>.\<close>

definition getOrZero :: "(string \<times> int) list \<Rightarrow> string \<Rightarrow> int" where
  "getOrZero m k = (case map_of m k of None \<Rightarrow> 0 | Some d \<Rightarrow> d)"

text \<open>The body of the first \<open>links.forEach\<close>: count the link at its target.\<close>

definition countIncoming ::
  "(number \<Rightarrow> string) \<Rightarrow> (string \<times> int) list \<Rightarrow> link \<Rightarrow> (string \<times> int) list" where
  "countIncoming nts inDeg l =
     (let targetName = String nts (target l)
      in AList.update targetName (getOrZero inDeg targetName + 1) inDeg)"

text \<open>
  The body of the inner \<open>links.forEach\<close> while \<open>nodeName\<close> is processed, on the pair
  of \<open>inDegree\<close> and \<open>queue\<close>; \<open>vis\<close> is \<open>visited\<close>, which already holds \<open>nodeName\<close>.
\<close>

definition relaxLink ::
  "(number \<Rightarrow> string) \<Rightarrow> string \<Rightarrow> string set \<Rightarrow>
   (string \<times> int) list \<times> string list \<Rightarrow> link \<Rightarrow> (string \<times> int) list \<times> string list" where
  "relaxLink nts nodeName vis acc l =
     (if String nts (source l) = nodeName then
        let targetName = String nts (target l);
            newInDegree = getOrZero (fst acc) targetName - 1;
            inDeg = AList.update targetName newInDegree (fst acc)
        in (inDeg, if newInDegree = 0 \<and> targetName \<notin> vis then snd acc @ [targetName] else snd acc)
      else acc)"

text \<open>
  One iteration of the \<open>for\<close> loop: \<open>queue.shift()\<close>, then the guarded body. On an
  empty queue \<open>shift\<close> returns \<open>undefined\<close>, which names no node, so nothing changes; the
  loop runs \<open>levelSize\<close> times on a queue of at least that length, so this case does not
  arise from \<open>processLevel\<close> below.
\<close>

definition visitNode :: "(number \<Rightarrow> string) \<Rightarrow> link list \<Rightarrow> nat \<Rightarrow> layerState \<Rightarrow> layerState" where
  "visitNode nts ls currentDepth st =
     (case queue st of
        [] \<Rightarrow> st
      | nodeName # rest \<Rightarrow>
          (case map_of (nodeMap st) nodeName of
             None \<Rightarrow> st\<lparr>queue := rest\<rparr>
           | Some nd \<Rightarrow>
               if nodeName \<in> visited st then st\<lparr>queue := rest\<rparr>
               else
                 let vis = insert nodeName (visited st);
                     acc = foldl (relaxLink nts nodeName vis) (inDegree st, rest) ls
                 in \<lparr>nodeMap = AList.update nodeName (nd\<lparr>depth := Some (Num (of_nat currentDepth))\<rparr>)
                                 (nodeMap st),
                     visited = vis, inDegree = fst acc, queue = snd acc\<rparr>))"

fun processLevel ::
  "(number \<Rightarrow> string) \<Rightarrow> link list \<Rightarrow> nat \<Rightarrow> nat \<Rightarrow> layerState \<Rightarrow> layerState" where
  "processLevel nts ls currentDepth 0 st = st"
| "processLevel nts ls currentDepth (Suc n) st =
     processLevel nts ls currentDepth n (visitNode nts ls currentDepth st)"

text \<open>
  The \<open>while\<close> loop terminates: every iteration of the \<open>for\<close> loop on a non-empty
  queue decreases the following quantity.
\<close>

definition potential :: "link list \<Rightarrow> layerState \<Rightarrow> nat" where
  "potential ls st =
     card (fst ` set (nodeMap st) - visited st) * Suc (length ls) + length (queue st)"

function bfsLoop :: "(number \<Rightarrow> string) \<Rightarrow> link list \<Rightarrow> nat \<Rightarrow> layerState \<Rightarrow> layerState" where
  "bfsLoop nts ls currentDepth st =
     (if queue st = [] then st
      else bfsLoop nts ls (Suc currentDepth)
             (processLevel nts ls currentDepth (length (queue st)) st))"
  by pat_completeness auto
termination
proof (relation "measure (\<lambda>(nts, ls, d, st). potential ls st)")
  show "wf (measure (\<lambda>(nts, ls, d, st). potential ls st))" by simp
next
  fix nts :: "number \<Rightarrow> string" and ls :: "link list" and currentDepth :: nat
    and st :: layerState
  assume nonempty: "queue st \<noteq> []"
  have grow: "length (snd (foldl (relaxLink nts x vis) acc ks)) \<le> length (snd acc) + length ks"
    for x vis acc ks
  proof (induction ks arbitrary: acc)
    case Nil
    then show ?case by simp
  next
    case (Cons l ks)
    have "length (snd (relaxLink nts x vis acc l)) \<le> Suc (length (snd acc))"
      by (simp add: relaxLink_def Let_def)
    with Cons[of "relaxLink nts x vis acc l"] show ?case by simp
  qed
  have step: "potential ls (visitNode nts ls d s) < potential ls s" if "queue s \<noteq> []" for d s
  proof -
    from that obtain x rest where q: "queue s = x # rest" by (cases "queue s") auto
    show ?thesis
    proof (cases "map_of (nodeMap s) x")
      case None
      then show ?thesis by (simp add: visitNode_def q potential_def)
    next
      case (Some nd)
      show ?thesis
      proof (cases "x \<in> visited s")
        case True
        then show ?thesis using Some by (simp add: visitNode_def q potential_def)
      next
        case False
        let ?K = "fst ` set (nodeMap s)"
        have xK: "x \<in> ?K" using Some by (metis domI dom_map_of_conv_image_fst)
        have "card (?K - insert x (visited s)) < card (?K - visited s)"
          by (rule psubset_card_mono) (use xK False in auto)
        then have c: "Suc (card (?K - insert x (visited s))) \<le> card (?K - visited s)" by simp
        have k: "fst ` set (AList.update x v (nodeMap s)) = ?K" for v
          using xK by (auto simp: dom_update)
        have "length (snd (foldl (relaxLink nts x (insert x (visited s))) (inDegree s, rest) ls))
                \<le> length rest + length ls"
          using grow[of x _ "(inDegree s, rest)" ls] by simp
        moreover have "Suc (card (?K - insert x (visited s))) * Suc (length ls)
                         \<le> card (?K - visited s) * Suc (length ls)"
          using c by (rule mult_le_mono1)
        ultimately show ?thesis
          using Some False by (simp add: visitNode_def q potential_def Let_def k)
      qed
    qed
  qed
  have step_le: "potential ls (visitNode nts ls d s) \<le> potential ls s" for d s
  proof (cases "queue s = []")
    case True
    then show ?thesis by (simp add: visitNode_def)
  next
    case False
    then show ?thesis using step[of s d] by simp
  qed
  have level_le: "potential ls (processLevel nts ls d n s) \<le> potential ls s" for d n s
  proof (induction n arbitrary: s)
    case 0
    then show ?case by simp
  next
    case (Suc n)
    show ?case using Suc[of "visitNode nts ls d s"] step_le[of d s] by simp
  qed
  from nonempty obtain n where n: "length (queue st) = Suc n" by (cases "queue st") auto
  have "potential ls (processLevel nts ls currentDepth n (visitNode nts ls currentDepth st))
          \<le> potential ls (visitNode nts ls currentDepth st)"
    by (rule level_le)
  also have "\<dots> < potential ls st" using nonempty by (rule step)
  finally show "((nts, ls, Suc currentDepth,
                  processLevel nts ls currentDepth (length (queue st)) st),
                 nts, ls, currentDepth, st)
                \<in> measure (\<lambda>(nts, ls, d, st). potential ls st)"
    by (simp add: n)
qed

text \<open>
  \<open>new Map(entries)\<close> sets the entries in order, so a repeated name keeps its first
  position and its last value. The initial queue lists the keys of \<open>inDegree\<close> with
  value 0 in insertion order.
\<close>

definition calculateNodeDepths :: "(number \<Rightarrow> string) \<Rightarrow> node list \<Rightarrow> link list \<Rightarrow> node list" where
  "calculateNodeDepths nts ns ls =
     (let nodeMap0 = foldl (\<lambda>m n. AList.update (name n) (n\<lparr>depth := Some (Num 0)\<rparr>) m) [] ns;
          inDegree0 = foldl (\<lambda>m n. AList.update (name n) 0 m) [] ns;
          inDegree1 = foldl (countIncoming nts) inDegree0 ls;
          queue0 = map fst (filter (\<lambda>p. snd p = 0) inDegree1);
          final = bfsLoop nts ls 0
                    \<lparr>nodeMap = nodeMap0, visited = {}, inDegree = inDegree1, queue = queue0\<rparr>
      in map snd (nodeMap final))"

section \<open>validateSankeyData\<close>

text \<open>The decimal digits of a length, as a template literal prints it.\<close>

fun showNat :: "nat \<Rightarrow> string" where
  "showNat n =
     (if n < 10 then [''0123456789'' ! n]
      else showNat (n div 10) @ [''0123456789'' ! (n mod 10)])"

record validationReport =
  isValid :: bool
  errors :: "string list"
  warnings :: "string list"

text \<open>
  The argument of the validator: \<open>data.nodes\<close> and \<open>data.links\<close> are tested for
  presence, so each may be missing.
\<close>

record chartInput =
  data_nodes :: "node list option"
  data_links :: "link list option"

definition validateSankeyData :: "(number \<Rightarrow> string) \<Rightarrow> chartInput \<Rightarrow> validationReport" where
  "validateSankeyData nts data =
     (case (data_nodes data, data_links data) of
        (Some ns, Some ls) \<Rightarrow>
          let errors1 = (if length ns = 0 then [''No nodes found in data''] else []);
              errors2 = errors1 @ (if length ls = 0 then [''No links found in data''] else []);
              nodeNames = set (map name ns);
              linkNodes = set (concat (map (\<lambda>l. [String nts (source l), String nts (target l)]) ls));
              orphanedNodes = filter (\<lambda>n. name n \<notin> linkNodes) ns;
              warnings1 = (if length orphanedNodes > 0
                           then [''Found '' @ showNat (length orphanedNodes) @
                                 '' orphaned nodes (nodes not connected to any links)'']
                           else []);
              invalidLinks = filter (\<lambda>l. String nts (source l) \<notin> nodeNames \<or>
                                          String nts (target l) \<notin> nodeNames) ls;
              errors3 = errors2 @ (if length invalidLinks > 0
                                   then [''Found '' @ showNat (length invalidLinks) @
                                         '' links referencing non-existent nodes'']
                                   else []);
              selfLinks = filter (\<lambda>l. strictEq (source l) (target l)) ls;
              warnings2 = warnings1 @ (if length selfLinks > 0
                                       then [''Found '' @ showNat (length selfLinks) @
                                             '' self-referencing links'']
                                       else []);
              negativeValueLinks = filter (\<lambda>l. num_le0 (val l)) ls;
              errors4 = errors3 @ (if length negativeValueLinks > 0
                                   then [''Found '' @ showNat (length negativeValueLinks) @
                                         '' links with zero or negative values'']
                                   else [])
          in \<lparr>isValid = (length errors4 = 0), errors = errors4, warnings = warnings2\<rparr>
      | _ \<Rightarrow> \<lparr>isValid = False, errors = [''Missing nodes or links data''], warnings = []\<rparr>)"

declare bfsLoop.simps [simp del]

declare showNat.simps [simp del]

section \<open>Concrete inputs\<close>

text \<open>
  The two built-in conversions and the addition are parameters of the model. The concrete
  evaluations below use string labels and number cells only, which no conversion is applied
  to, and add only integers below \<open>2\<^sup>5\<^sup>3\<close> with such a sum, which doubles add
  exactly. Where a closed term is needed the parameters are instantiated with these
  stand-ins; \<open>standInAdd\<close> is the exact sum on those integers and, as a marker, \<open>NaN\<close> on
  every other pair, which it is never applied to.
\<close>

definition standInNumberToString :: "number \<Rightarrow> string" where
  "standInNumberToString n = ''NaN''"

definition standInStringToNumber :: "string \<Rightarrow> number" where
  "standInStringToNumber s = NaN"

definition exactInteger :: "rat \<Rightarrow> bool" where
  "exactInteger q \<longleftrightarrow> of_int \<lfloor>q\<rfloor> = q \<and> \<bar>q\<bar> \<le> 9007199254740992"

definition standInAdd :: "number \<Rightarrow> number \<Rightarrow> number" where
  "standInAdd a b =
     (case (a, b) of
        (Num x, Num y) \<Rightarrow>
          if exactInteger x \<and> exactInteger y \<and> exactInteger (x + y) then Num (x + y) else NaN
      | _ \<Rightarrow> NaN)"

definition mkNode :: "string \<Rightarrow> node" where
  "mkNode s = \<lparr>node_id = None, name = s, node_value = None, depth = None\<rparr>"

definition mkLink :: "string \<Rightarrow> string \<Rightarrow> rat \<Rightarrow> link" where
  "mkLink s t v = \<lparr>source = LStr s, target = LStr t, val = Num v, link_id = None\<rparr>"

section \<open>Notions used in the statements and proofs\<close>

text \<open>
  The order of first occurrences, which is the key order of a \<open>Map\<close> filled from a list,
  and the shape of an aggregated entry: the first link of its group, with the values of the
  group added from left to right.
\<close>

definition firstOcc :: "'a list \<Rightarrow> 'a list" where
  "firstOcc xs = rev (remdups (rev xs))"

definition summed :: "(number \<Rightarrow> number \<Rightarrow> number) \<Rightarrow> link list \<Rightarrow> link \<Rightarrow> bool" where
  "summed addNum g e \<longleftrightarrow> (\<exists>l rest. g = l # rest \<and> e = l\<lparr>val := foldl addNum (val l) (map val rest)\<rparr>)"

text \<open>
  The vocabulary of the statement about rows, on the cells themselves and not through
  \<open>rowLabel\<close> and \<open>rowValue\<close>: the falsy cells, listed; the trimmed label of a cell,
  \<open>String(cell).trim()\<close>; the rows that survive, which are those whose source and target
  cells are not falsy and have a non-empty trimmed label and whose value \<open>Number(cell)\<close> is
  greater than 0 (which \<open>NaN\<close> is not); and the edge that a surviving row yields.
\<close>

definition falsyCell :: "cell \<Rightarrow> bool" where
  "falsyCell c \<longleftrightarrow>
     c = CNull \<or> c = CStr [] \<or> c = CBool False \<or> c = CNum (Num 0) \<or> c = CNum NaN"

definition trimmedText :: "(number \<Rightarrow> string) \<Rightarrow> cell \<Rightarrow> string" where
  "trimmedText nts c = trim (cellToString nts c)"

definition rowKept ::
  "(number \<Rightarrow> string) \<Rightarrow> (string \<Rightarrow> number) \<Rightarrow> cell list \<Rightarrow> cell list \<Rightarrow> cell list \<Rightarrow> nat \<Rightarrow> bool" where
  "rowKept nts stn sourceData targetData valueData i \<longleftrightarrow>
     \<not> falsyCell (sourceData ! i) \<and> trimmedText nts (sourceData ! i) \<noteq> [] \<and>
     \<not> falsyCell (targetData ! i) \<and> trimmedText nts (targetData ! i) \<noteq> [] \<and>
     num_gt0 (cellToNumber stn (valueData ! i))"

definition rowLink ::
  "(number \<Rightarrow> string) \<Rightarrow> (string \<Rightarrow> number) \<Rightarrow> cell list \<Rightarrow> cell list \<Rightarrow> cell list \<Rightarrow> nat \<Rightarrow> link" where
  "rowLink nts stn sourceData targetData valueData i =
     \<lparr>source = LStr (trimmedText nts (sourceData ! i)),
      target = LStr (trimmedText nts (targetData ! i)),
      val = cellToNumber stn (valueData ! i), link_id = None\<rparr>"

text \<open>
  Inputs for the concrete evaluations: columns of unequal length; rows of which the last
  four are dropped (blank source, negative value, source cell \<open>false\<close>, value \<open>NaN\<close>); one
  row whose source cell is \<open>false\<close>; a row with an identifier; a graph with an orphan and a
  self-loop.
\<close>

definition unequalColumns :: sigmaData where
  "unequalColumns = map_of
     [(''src'', [CStr ''A'', CStr ''B'']),
      (''tgt'', [CStr ''B'']),
      (''val'', [CNum (Num 1), CNum (Num 2)])]"



definition rowsWithId :: sigmaData where
  "rowsWithId = map_of
     [(''src'', [CStr ''A'']), (''tgt'', [CStr ''B'']), (''val'', [CNum (Num 1)]),
      (''id'', [CStr ''x1''])]"

definition orphanAndSelfLoop :: chartInput where
  "orphanAndSelfLoop =
     \<lparr>data_nodes = Some [mkNode ''A'', mkNode ''B'', mkNode ''X''],
      data_links = Some [mkLink ''A'' ''B'' 10, mkLink ''B'' ''B'' 1]\<rparr>"

text \<open>
  \<open>depthSet n0 n\<close>: \<open>n\<close> is \<open>n0\<close> with its depth set to a natural number; \<open>framed\<close>:
  the entries of \<open>nodeMap\<close> are the input nodes, in order, each with its depth set.
\<close>

definition depthSet :: "node \<Rightarrow> node \<Rightarrow> bool" where
  "depthSet n0 n \<longleftrightarrow> (\<exists>k::nat. n = n0\<lparr>depth := Some (Num (of_nat k))\<rparr>)"

definition framed :: "node list \<Rightarrow> (string \<times> node) list \<Rightarrow> bool" where
  "framed ns M \<longleftrightarrow> list_all2 (\<lambda>n0 p. fst p = name n0 \<and> depthSet n0 (snd p)) ns M"

text \<open>
  Every entry of \<open>nodeMap\<close> is stored under its own name and has a depth that is a
  natural number.
\<close>

definition depthsAssigned :: "(string \<times> node) list \<Rightarrow> bool" where
  "depthsAssigned M \<longleftrightarrow>
     (\<forall>p\<in>set M. name (snd p) = fst p \<and> (\<exists>k::nat. depth (snd p) = Some (Num (of_nat k))))"

text \<open>
  The relation between a run on all links and a run on the links whose target is in the
  node collection \<open>K\<close>: on the pair of \<open>inDegree\<close> and \<open>queue\<close> inside the inner
  \<open>forEach\<close>, and on the whole state.
\<close>

definition simAcc ::
  "string set \<Rightarrow> (string \<times> int) list \<times> string list \<Rightarrow> (string \<times> int) list \<times> string list \<Rightarrow> bool" where
  "simAcc K a b \<longleftrightarrow>
     (\<forall>y\<in>K. getOrZero (fst a) y = getOrZero (fst b) y) \<and> snd b = filter (\<lambda>y. y \<in> K) (snd a)"

definition simState :: "string set \<Rightarrow> layerState \<Rightarrow> layerState \<Rightarrow> bool" where
  "simState K a b \<longleftrightarrow>
     nodeMap a = nodeMap b \<and> visited a = visited b \<and> fst ` set (nodeMap a) = K \<and>
     (\<forall>y\<in>K. getOrZero (inDegree a) y = getOrZero (inDegree b) y) \<and>
     queue b = filter (\<lambda>y. y \<in> K) (queue a)"

text \<open>
  The links as a relation on names; the number of links into \<open>y\<close> whose source is not in
  \<open>V\<close>, which is what \<open>inDegree\<close> holds for \<open>V = visited\<close>; and the number of links from
  \<open>x\<close> to \<open>y\<close>.
\<close>

definition linkRel :: "(number \<Rightarrow> string) \<Rightarrow> link list \<Rightarrow> (string \<times> string) set" where
  "linkRel nts ls = set (map (\<lambda>l. (String nts (source l), String nts (target l))) ls)"

definition incoming :: "(number \<Rightarrow> string) \<Rightarrow> link list \<Rightarrow> string set \<Rightarrow> string \<Rightarrow> nat" where
  "incoming nts ls V y =
     length (filter (\<lambda>l. String nts (target l) = y \<and> String nts (source l) \<notin> V) ls)"

definition fromTo :: "(number \<Rightarrow> string) \<Rightarrow> link list \<Rightarrow> string \<Rightarrow> string \<Rightarrow> nat" where
  "fromTo nts ls x y =
     length (filter (\<lambda>l. String nts (source l) = x \<and> String nts (target l) = y) ls)"

text \<open>
  \<open>hasDepth M x k\<close>: the node stored under \<open>x\<close> has depth \<open>k\<close>. \<open>srcsBelow ... y b\<close>: every
  link into \<open>y\<close> comes from a visited node of depth below \<open>b\<close>. \<open>layerInv ... d n st\<close> is the
  invariant of the \<open>for\<close> loop of wave \<open>d\<close> with \<open>n\<close> iterations left: the first \<open>n\<close> queue
  entries were enqueued before the wave, the others during it.
\<close>

definition hasDepth :: "(string \<times> node) list \<Rightarrow> string \<Rightarrow> nat \<Rightarrow> bool" where
  "hasDepth M x k \<longleftrightarrow> (\<exists>n. map_of M x = Some n \<and> depth n = Some (Num (of_nat k)))"

definition srcsBelow ::
  "(number \<Rightarrow> string) \<Rightarrow> link list \<Rightarrow> string set \<Rightarrow> (string \<times> node) list \<Rightarrow> string \<Rightarrow> nat \<Rightarrow> bool" where
  "srcsBelow nts ls V M y b \<longleftrightarrow>
     (\<forall>l\<in>set ls. String nts (target l) = y \<longrightarrow>
        String nts (source l) \<in> V \<and> (\<exists>k<b. hasDepth M (String nts (source l)) k))"

definition layerInv :: "(number \<Rightarrow> string) \<Rightarrow> link list \<Rightarrow> nat \<Rightarrow> nat \<Rightarrow> layerState \<Rightarrow> bool" where
  "layerInv nts ls d n st \<longleftrightarrow>
     n \<le> length (queue st) \<and>
     (\<forall>y. getOrZero (inDegree st) y = int (incoming nts ls (visited st) y)) \<and>
     (\<forall>x\<in>visited st. \<exists>k\<le>d. hasDepth (nodeMap st) x k) \<and>
     (\<forall>l\<in>set ls. String nts (target l) \<in> visited st \<longrightarrow>
        String nts (source l) \<in> visited st \<and>
        (\<exists>ks kt. hasDepth (nodeMap st) (String nts (source l)) ks \<and>
                 hasDepth (nodeMap st) (String nts (target l)) kt \<and> ks < kt)) \<and>
     (\<forall>y\<in>set (take n (queue st)). srcsBelow nts ls (visited st) (nodeMap st) y d) \<and>
     (\<forall>y\<in>set (drop n (queue st)). srcsBelow nts ls (visited st) (nodeMap st) y (Suc d)) \<and>
     (\<forall>y\<in>fst ` set (nodeMap st). incoming nts ls (visited st) y = 0 \<longrightarrow>
        y \<in> visited st \<or> y \<in> set (queue st))"

text \<open>A chain of three nodes.\<close>

definition chainNodes :: "node list" where
  "chainNodes = [mkNode ''A'', mkNode ''B'', mkNode ''C'']"

definition chainLinks :: "link list" where
  "chainLinks = [mkLink ''A'' ''B'' 15, mkLink ''B'' ''C'' 3]"

section \<open>Properties of aggregateLinks\<close>

lemma firstOcc_snoc: "firstOcc (xs @ [x]) = (if x \<in> set xs then firstOcc xs else firstOcc xs @ [x])"
  by (simp add: firstOcc_def)

lemma set_firstOcc: "set (firstOcc xs) = set xs"
  by (simp add: firstOcc_def)

lemma distinct_firstOcc: "distinct (firstOcc xs)"
  by (simp add: firstOcc_def)

lemma update_absent: "k \<notin> fst ` set al \<Longrightarrow> AList.update k v al = al @ [(k, v)]"
  by (induction al) auto

lemma set_update_subset:
  "distinct (map fst al) \<Longrightarrow> set (AList.update k v al) \<subseteq> insert (k, v) {p \<in> set al. fst p \<noteq> k}"
proof (induction al)
  case Nil
  then show ?case by simp
next
  case (Cons p al)
  then show ?case by (cases "fst p = k") (auto simp: rev_image_eqI)
qed

lemma aggregateStep_absent:
  "linkKey nts l \<notin> fst ` set M \<Longrightarrow> aggregateStep nts addNum M l = M @ [(linkKey nts l, l)]"
  by (simp add: aggregateStep_def Let_def update_absent map_of_eq_None_iff[THEN iffD2])

lemma aggregateStep_present:
  "map_of M (linkKey nts l) = Some e \<Longrightarrow>
   aggregateStep nts addNum M l = AList.update (linkKey nts l) (e\<lparr>val := addNum (val e) (val l)\<rparr>) M"
  by (simp add: aggregateStep_def Let_def)

lemma summed_single: "summed addNum [l] l"
  by (simp add: summed_def)

lemma summed_snoc: "summed addNum g e \<Longrightarrow> summed addNum (g @ [x]) (e\<lparr>val := addNum (val e) (val x)\<rparr>)"
  by (auto simp: summed_def)

lemma agg_fold_char:
  "map fst (foldl (aggregateStep nts addNum) [] ls) = firstOcc (map (linkKey nts) ls) \<and>
   (\<forall>(k, e) \<in> set (foldl (aggregateStep nts addNum) [] ls). summed addNum (filter (\<lambda>x. linkKey nts x = k) ls) e)"
proof (induction ls rule: rev_induct)
  case Nil
  then show ?case by (simp add: firstOcc_def)
next
  case (snoc x ls)
  let ?M = "foldl (aggregateStep nts addNum) [] ls"
  let ?k = "linkKey nts x"
  from snoc have keys: "map fst ?M = firstOcc (map (linkKey nts) ls)"
    and vals: "\<And>k e. (k, e) \<in> set ?M \<Longrightarrow> summed addNum (filter (\<lambda>x. linkKey nts x = k) ls) e"
    by auto
  have dist: "distinct (map fst ?M)" by (simp add: keys distinct_firstOcc)
  have keyset: "fst ` set ?M = linkKey nts ` set ls"
    using arg_cong[OF keys, of set] by (simp add: set_firstOcc)
  show ?case
  proof (cases "?k \<in> fst ` set ?M")
    case False
    then have step: "foldl (aggregateStep nts addNum) [] (ls @ [x]) = ?M @ [(?k, x)]"
      by (simp add: aggregateStep_absent)
    have nok: "?k \<notin> linkKey nts ` set ls" using False keyset by simp
    have "\<forall>y\<in>set ls. linkKey nts y \<noteq> ?k"
      using nok by (metis image_eqI)
    then have f: "filter (\<lambda>y. linkKey nts y = ?k) ls = []"
      by simp
    have "map fst (foldl (aggregateStep nts addNum) [] (ls @ [x])) = firstOcc (map (linkKey nts) (ls @ [x]))"
      unfolding step using nok by (simp add: keys firstOcc_snoc)
    moreover have "\<forall>(k, e) \<in> set (foldl (aggregateStep nts addNum) [] (ls @ [x])).
        summed addNum (filter (\<lambda>y. linkKey nts y = k) (ls @ [x])) e"
    proof -
      { fix k e assume "(k, e) \<in> set ?M"
        then have "k \<noteq> ?k" using False by force
        with vals[OF \<open>(k, e) \<in> set ?M\<close>]
        have "summed addNum (filter (\<lambda>y. linkKey nts y = k) (ls @ [x])) e" by auto }
      moreover have "summed addNum (filter (\<lambda>y. linkKey nts y = ?k) (ls @ [x])) x"
        by (simp add: f summed_single)
      ultimately show ?thesis unfolding step by auto
    qed
    ultimately show ?thesis by blast
  next
    case True
    then obtain e where e: "map_of ?M ?k = Some e"
      by (metis domD dom_map_of_conv_image_fst)
    then have mem: "(?k, e) \<in> set ?M" by (rule map_of_SomeD)
    let ?e' = "e\<lparr>val := addNum (val e) (val x)\<rparr>"
    have step: "foldl (aggregateStep nts addNum) [] (ls @ [x]) = AList.update ?k ?e' ?M"
      using e by (simp add: aggregateStep_present)
    have kin: "?k \<in> linkKey nts ` set ls" using True keyset by simp
    have "map fst (foldl (aggregateStep nts addNum) [] (ls @ [x])) = firstOcc (map (linkKey nts) (ls @ [x]))"
      unfolding step using kin True by (simp add: keys[symmetric] firstOcc_snoc update_keys)
    moreover have "\<forall>(k, e) \<in> set (foldl (aggregateStep nts addNum) [] (ls @ [x])).
        summed addNum (filter (\<lambda>y. linkKey nts y = k) (ls @ [x])) e"
    proof -
      { fix k e0 assume "(k, e0) \<in> set (AList.update ?k ?e' ?M)"
        then have "(k, e0) = (?k, ?e') \<or> ((k, e0) \<in> set ?M \<and> k \<noteq> ?k)"
          using set_update_subset[OF dist, of ?k ?e'] by auto
        then have "summed addNum (filter (\<lambda>y. linkKey nts y = k) (ls @ [x])) e0"
        proof
          assume "(k, e0) = (?k, ?e')"
          then show ?thesis using summed_snoc[OF vals[OF mem], of x] by simp
        next
          assume "(k, e0) \<in> set ?M \<and> k \<noteq> ?k"
          then show ?thesis using vals[of k e0] by auto
        qed }
      then show ?thesis unfolding step by auto
    qed
    ultimately show ?thesis by blast
  qed
qed

lemma agg_distinct_keys:
  "distinct (map (linkKey nts) ls) \<Longrightarrow> foldl (aggregateStep nts addNum) [] ls = map (\<lambda>l. (linkKey nts l, l)) ls"
proof (induction ls rule: rev_induct)
  case Nil
  then show ?case by simp
next
  case (snoc l ls)
  then have IH: "foldl (aggregateStep nts addNum) [] ls = map (\<lambda>l. (linkKey nts l, l)) ls"
    and notin: "linkKey nts l \<notin> linkKey nts ` set ls" by auto
  have "linkKey nts l \<notin> fst ` set (map (\<lambda>l. (linkKey nts l, l)) ls)"
    using notin by (simp add: image_image)
  then show ?case
    using IH by (simp add: aggregateStep_absent)
qed

lemma summed_key: "summed addNum g e \<Longrightarrow> \<forall>x\<in>set g. linkKey nts x = k \<Longrightarrow> linkKey nts e = k"
  by (auto simp: summed_def linkKey_def)

lemma agg_entry_key:
  assumes "(k, e) \<in> set (foldl (aggregateStep nts addNum) [] ls)"
  shows "linkKey nts e = k"
proof -
  from agg_fold_char[of nts addNum ls] assms
  have "summed addNum (filter (\<lambda>x. linkKey nts x = k) ls) e" by auto
  then show ?thesis by (rule summed_key) simp
qed

lemma aggregateLinks_keys:
  "map (linkKey nts) (aggregateLinks nts addNum ls) = firstOcc (map (linkKey nts) ls)"
proof -
  have "map (linkKey nts) (aggregateLinks nts addNum ls) = map fst (foldl (aggregateStep nts addNum) [] ls)"
    unfolding aggregateLinks_def map_map
    by (rule map_cong[OF refl]) (auto simp: agg_entry_key)
  then show ?thesis using agg_fold_char[of nts addNum ls] by simp
qed

lemma aggregateLinks_summed:
  assumes "e \<in> set (aggregateLinks nts addNum ls)"
  shows "summed addNum (filter (\<lambda>x. linkKey nts x = linkKey nts e) ls) e"
proof -
  from assms obtain k where ke: "(k, e) \<in> set (foldl (aggregateStep nts addNum) [] ls)"
    by (auto simp: aggregateLinks_def)
  then have "linkKey nts e = k" by (rule agg_entry_key)
  with agg_fold_char[of nts addNum ls] ke show ?thesis by auto
qed

text \<open>
  C9. \<open>aggregateLinks\<close> is idempotent: applied to its own output it returns that output,
  with the same edges, the same values and the same order.
\<close>

theorem aggregateLinks_idempotent:
  "aggregateLinks nts addNum (aggregateLinks nts addNum ls) = aggregateLinks nts addNum ls"
proof -
  have "distinct (map (linkKey nts) (aggregateLinks nts addNum ls))"
    by (simp add: aggregateLinks_keys distinct_firstOcc)
  then have "foldl (aggregateStep nts addNum) [] (aggregateLinks nts addNum ls)
               = map (\<lambda>l. (linkKey nts l, l)) (aggregateLinks nts addNum ls)"
    by (rule agg_distinct_keys)
  then show ?thesis
    by (simp add: aggregateLinks_def[of nts addNum "aggregateLinks nts addNum ls"] comp_def)
qed

text \<open>
  The key determines the pair when the labels are strings and no source label contains the
  separator \<open>->\<close>.
\<close>

lemma key_determines_pair:
  assumes "\<forall>u v. s1 \<noteq> u @ ''->'' @ v" "\<forall>u v. s2 \<noteq> u @ ''->'' @ v"
    and "s1 @ ''->'' @ t1 = s2 @ ''->'' @ t2"
  shows "s1 = s2 \<and> t1 = t2"
proof -
  from assms(3) obtain us where
    "(s1 = s2 @ us \<and> us @ ''->'' @ t1 = ''->'' @ t2) \<or> (s1 @ us = s2 \<and> ''->'' @ t1 = us @ ''->'' @ t2)"
    by (auto simp: append_eq_append_conv2)
  then show ?thesis
  proof
    assume a: "s1 = s2 @ us \<and> us @ ''->'' @ t1 = ''->'' @ t2"
    show ?thesis
    proof (cases us)
      case Nil
      then show ?thesis using a by simp
    next
      case (Cons c us')
      then have c: "c = CHR ''-''" and r: "us' @ ''->'' @ t1 = CHR ''>'' # t2" using a by auto
      show ?thesis
      proof (cases us')
        case Nil
        then show ?thesis using r by simp
      next
        case (Cons c' us'')
        then have "c' = CHR ''>''" using r by simp
        then have "s1 = s2 @ ''->'' @ us''" using a \<open>us = c # us'\<close> Cons c by simp
        then show ?thesis using assms(1) by blast
      qed
    qed
  next
    assume a: "s1 @ us = s2 \<and> ''->'' @ t1 = us @ ''->'' @ t2"
    show ?thesis
    proof (cases us)
      case Nil
      then show ?thesis using a by simp
    next
      case (Cons c us')
      then have c: "c = CHR ''-''" and r: "CHR ''>'' # t1 = us' @ ''->'' @ t2" using a by auto
      show ?thesis
      proof (cases us')
        case Nil
        then show ?thesis using r by simp
      next
        case (Cons c' us'')
        then have "c' = CHR ''>''" using r by simp
        then have "s2 = s1 @ ''->'' @ us''" using a \<open>us = c # us'\<close> Cons c by auto
        then show ?thesis using assms(2) by blast
      qed
    qed
  qed
qed

lemma separator_free_keys:
  assumes "\<forall>l\<in>set ls. \<exists>s t. source l = LStr s \<and> target l = LStr t \<and> (\<forall>u v. s \<noteq> u @ ''->'' @ v)"
  shows "\<forall>a\<in>set ls. \<forall>b\<in>set ls. linkKey nts a = linkKey nts b \<longrightarrow> endpoints a = endpoints b"
proof (intro ballI impI)
  fix a b assume ab: "a \<in> set ls" "b \<in> set ls" and k: "linkKey nts a = linkKey nts b"
  from assms ab(1) obtain s1 t1 where a: "source a = LStr s1" "target a = LStr t1"
    "\<forall>u v. s1 \<noteq> u @ ''->'' @ v" by blast
  from assms ab(2) obtain s2 t2 where b: "source b = LStr s2" "target b = LStr t2"
    "\<forall>u v. s2 \<noteq> u @ ''->'' @ v" by blast
  from k have "s1 @ ''->'' @ t1 = s2 @ ''->'' @ t2" by (simp add: linkKey_def a b)
  from key_determines_pair[OF a(3) b(3) this] show "endpoints a = endpoints b"
    by (simp add: endpoints_def a b)
qed

text \<open>
  C2, as amended. The grouping key is the string \<open>source->target\<close>, so the claim holds
  for the lists on which that string determines the ordered pair (by
  \<open>separator_free_keys\<close>, those with string labels and no \<open>->\<close> in a source label are
  among them): provided any two links of the input with the same key have the same
  (source, target) pair, the output has exactly one edge per distinct ordered pair of the
  input, and each output edge is the first input link of its pair with the values of
  exactly the links of that pair added from left to right, by whatever addition the
  parameter \<open>addNum\<close> is (so also by the rounding, overflowing addition of doubles).
\<close>

theorem aggregateLinks_per_pair:
  assumes inj: "\<forall>a\<in>set ls. \<forall>b\<in>set ls. linkKey nts a = linkKey nts b \<longrightarrow> endpoints a = endpoints b"
  shows "distinct (map endpoints (aggregateLinks nts addNum ls)) \<and>
         set (map endpoints (aggregateLinks nts addNum ls)) = set (map endpoints ls) \<and>
         (\<forall>e\<in>set (aggregateLinks nts addNum ls).
            \<exists>l rest. filter (\<lambda>x. endpoints x = endpoints e) ls = l # rest \<and>
                     e = l\<lparr>val := foldl addNum (val l) (map val rest)\<rparr>)"
proof -
  let ?out = "aggregateLinks nts addNum ls"
  have key_ep: "linkKey nts a = linkKey nts b" if "endpoints a = endpoints b" for a b
    using that by (simp add: linkKey_def endpoints_def)
  have ep: "\<exists>l\<in>set ls. endpoints l = endpoints e \<and> linkKey nts l = linkKey nts e"
    if "e \<in> set ?out" for e
  proof -
    from aggregateLinks_summed[OF that] obtain l rest
      where f: "filter (\<lambda>x. linkKey nts x = linkKey nts e) ls = l # rest"
        and e: "e = l\<lparr>val := foldl addNum (val l) (map val rest)\<rparr>"
      by (auto simp: summed_def)
    have "l \<in> set (filter (\<lambda>x. linkKey nts x = linkKey nts e) ls)" by (simp add: f)
    then have "l \<in> set ls" "linkKey nts l = linkKey nts e" by auto
    moreover have "endpoints l = endpoints e" by (subst e) (simp add: endpoints_def)
    ultimately show ?thesis by blast
  qed
  have same_filter: "filter (\<lambda>x. endpoints x = endpoints e) ls
                     = filter (\<lambda>x. linkKey nts x = linkKey nts e) ls" if "e \<in> set ?out" for e
  proof (rule filter_cong[OF refl])
    fix x assume x: "x \<in> set ls"
    from ep[OF that] obtain l where l: "l \<in> set ls" "endpoints l = endpoints e"
      "linkKey nts l = linkKey nts e" by blast
    have "linkKey nts x = linkKey nts l \<longrightarrow> endpoints x = endpoints l"
      using inj x l(1) by blast
    then show "(endpoints x = endpoints e) = (linkKey nts x = linkKey nts e)"
      using l(2,3) key_ep[of x e] by auto
  qed
  have d: "distinct (map (linkKey nts) ?out)"
    by (simp add: aggregateLinks_keys distinct_firstOcc)
  have "distinct (map endpoints ?out)"
  proof -
    have "inj_on endpoints (set ?out)"
    proof (rule inj_onI)
      fix a b assume "a \<in> set ?out" "b \<in> set ?out" "endpoints a = endpoints b"
      then show "a = b" using d key_ep[of a b] by (auto simp: distinct_map dest: inj_onD)
    qed
    moreover have "distinct ?out" using d by (simp add: distinct_map)
    ultimately show ?thesis by (simp add: distinct_map)
  qed
  moreover have "set (map endpoints ?out) = set (map endpoints ls)"
  proof
    show "set (map endpoints ?out) \<subseteq> set (map endpoints ls)"
    proof
      fix p assume "p \<in> set (map endpoints ?out)"
      then obtain e where e: "e \<in> set ?out" "p = endpoints e" by auto
      from ep[OF e(1)] obtain l where "l \<in> set ls" "endpoints l = endpoints e" by blast
      then have "l \<in> set ls" "p = endpoints l" using e(2) by simp_all
      then show "p \<in> set (map endpoints ls)" by simp
    qed
    show "set (map endpoints ls) \<subseteq> set (map endpoints ?out)"
    proof
      fix p assume "p \<in> set (map endpoints ls)"
      then obtain l where l: "l \<in> set ls" "p = endpoints l" by auto
      then have "linkKey nts l \<in> set (map (linkKey nts) ?out)"
        by (simp add: aggregateLinks_keys set_firstOcc)
      then obtain e where e: "e \<in> set ?out" "linkKey nts e = linkKey nts l" by auto
      from ep[OF e(1)] obtain l' where "l' \<in> set ls" "endpoints l' = endpoints e"
        "linkKey nts l' = linkKey nts e" by blast
      moreover have "linkKey nts l' = linkKey nts l \<longrightarrow> endpoints l' = endpoints l"
        using inj l(1) \<open>l' \<in> set ls\<close> by blast
      ultimately have "endpoints e = p" using l(2) e(2) by simp
      with e(1) show "p \<in> set (map endpoints ?out)" by force
    qed
  qed
  moreover have "\<forall>e\<in>set ?out.
            \<exists>l rest. filter (\<lambda>x. endpoints x = endpoints e) ls = l # rest \<and>
                     e = l\<lparr>val := foldl addNum (val l) (map val rest)\<rparr>"
    using aggregateLinks_summed same_filter by (simp add: summed_def)
  ultimately show ?thesis by blast
qed

theorem aggregateLinks_per_pair_witness:
  "distinct (map endpoints (aggregateLinks standInNumberToString standInAdd
       [mkLink ''A'' ''B'' 10, mkLink ''A'' ''B'' 5, mkLink ''B'' ''C'' 3])) \<and>
   set (map endpoints (aggregateLinks standInNumberToString standInAdd
       [mkLink ''A'' ''B'' 10, mkLink ''A'' ''B'' 5, mkLink ''B'' ''C'' 3]))
     = set (map endpoints [mkLink ''A'' ''B'' 10, mkLink ''A'' ''B'' 5, mkLink ''B'' ''C'' 3]) \<and>
   aggregateLinks standInNumberToString standInAdd
       [mkLink ''A'' ''B'' 10, mkLink ''A'' ''B'' 5, mkLink ''B'' ''C'' 3]
     = [mkLink ''A'' ''B'' 15, mkLink ''B'' ''C'' 3]"
proof -
  let ?ls = "[mkLink ''A'' ''B'' 10, mkLink ''A'' ''B'' 5, mkLink ''B'' ''C'' 3]"
  have h: "\<forall>a\<in>set ?ls. \<forall>b\<in>set ?ls.
      linkKey standInNumberToString a = linkKey standInNumberToString b \<longrightarrow>
      endpoints a = endpoints b"
    by code_simp
  have v: "aggregateLinks standInNumberToString standInAdd ?ls = [mkLink ''A'' ''B'' 15, mkLink ''B'' ''C'' 3]"
    by code_simp
  from aggregateLinks_per_pair[OF h]
  have d: "distinct (map endpoints (aggregateLinks standInNumberToString standInAdd ?ls))"
    and e: "set (map endpoints (aggregateLinks standInNumberToString standInAdd ?ls)) = set (map endpoints ?ls)"
    by blast+
  show ?thesis by (rule conjI[OF d conjI[OF e v]])
qed

text \<open>
  C2 as stated fails: the two links below have different ordered pairs, each the reverse of
  the other, and the same key \<open>x->x->x\<close>; they are merged into one edge of value 3.
\<close>

theorem aggregateLinks_merges_reversed_pairs:
  "endpoints (mkLink ''x->x'' ''x'' 1) \<noteq> endpoints (mkLink ''x'' ''x->x'' 2) \<and>
   endpoints (mkLink ''x->x'' ''x'' 1) = (snd (endpoints (mkLink ''x'' ''x->x'' 2)),
                                           fst (endpoints (mkLink ''x'' ''x->x'' 2))) \<and>
   aggregateLinks standInNumberToString standInAdd [mkLink ''x->x'' ''x'' 1, mkLink ''x'' ''x->x'' 2]
     = [mkLink ''x->x'' ''x'' 3]"
  by code_simp

section \<open>Properties of transformSigmaDataToSankey\<close>


lemma rowValue_kept:
  "(\<not> num_le0 (rowValue stn c)) = num_gt0 (cellToNumber stn c)"
  by (cases "cellToNumber stn c") (auto simp: rowValue_def Let_def)

lemma rowValue_gt0: "num_gt0 (cellToNumber stn c) \<Longrightarrow> rowValue stn c = cellToNumber stn c"
  by (cases "cellToNumber stn c") (auto simp: rowValue_def Let_def)

lemma rowValue_NaN: "cellToNumber stn c = NaN \<Longrightarrow> rowValue stn c = Num 0"
  by (simp add: rowValue_def)

lemma cell_truthy_iff: "cell_truthy c = (\<not> falsyCell c)"
proof (cases c)
  case (CNum n)
  then show ?thesis by (cases n) (auto simp: falsyCell_def)
qed (auto simp: falsyCell_def)

lemma rowLabel_cases:
  "rowLabel nts c = (if falsyCell c then [] else trimmedText nts c)"
  by (simp add: rowLabel_def trimmedText_def cell_truthy_iff trim_def)

lemma ingestRow_cases:
  "ingestRow nts stn sd td vd acc i =
     (if rowKept nts stn sd td vd i
      then (set_add (trimmedText nts (td ! i)) (set_add (trimmedText nts (sd ! i)) (fst acc)),
            snd acc @ [rowLink nts stn sd td vd i])
      else acc)"
proof (cases "rowKept nts stn sd td vd i")
  case True
  then have "num_gt0 (cellToNumber stn (vd ! i))" by (simp add: rowKept_def)
  then have "\<not> num_le0 (rowValue stn (vd ! i))"
    and "rowValue stn (vd ! i) = cellToNumber stn (vd ! i)"
    by (simp only: rowValue_kept, rule rowValue_gt0)
  then show ?thesis
    using True by (simp add: ingestRow_def Let_def rowLabel_cases rowKept_def rowLink_def)
next
  case False
  then show ?thesis
    by (auto simp: ingestRow_def Let_def rowLabel_cases rowKept_def rowValue_kept)
qed


lemma ingest_links:
  "snd (foldl (ingestRow nts stn sd td vd) acc is)
     = snd acc @ map (rowLink nts stn sd td vd) (filter (rowKept nts stn sd td vd) is)"
  by (induction "is" arbitrary: acc) (simp_all add: ingestRow_cases)




lemma transform_invalid_shape:
  assumes "sigmaData = None \<or> falsySelector sc \<or> falsySelector tc \<or> falsySelector vc \<or>
     (\<exists>d. sigmaData = Some d \<and>
        (length (columnOrEmpty d sc) \<noteq> length (columnOrEmpty d tc) \<or>
         length (columnOrEmpty d sc) \<noteq> length (columnOrEmpty d vc)))"
  shows "transformSigmaDataToSankey nts stn sigmaData sc tc vc = emptyChart"
  using assms by (auto simp: transformSigmaDataToSankey_def Let_def split: option.splits)

text \<open>
  C8. A missing data object, a missing or empty column selector, or selected source, target
  and value columns that do not all have the same length give the empty graph; the function
  is total, so nothing is raised, and no row is processed.
\<close>

theorem transform_rejects_bad_shape:
  assumes "sigmaData = None \<or> falsySelector sc \<or> falsySelector tc \<or> falsySelector vc \<or>
     (\<exists>d. sigmaData = Some d \<and>
        (length (columnOrEmpty d sc) \<noteq> length (columnOrEmpty d tc) \<or>
         length (columnOrEmpty d sc) \<noteq> length (columnOrEmpty d vc)))"
  shows "transformSigmaDataToSankey nts stn sigmaData sc tc vc = \<lparr>nodes = [], links = []\<rparr>"
  using transform_invalid_shape[OF assms] by (simp add: emptyChart_def)

theorem transform_rejects_bad_shape_witness:
  "transformSigmaDataToSankey standInNumberToString standInStringToNumber (Some unequalColumns)
     (Some ''src'') (Some ''tgt'') (Some ''val'') = \<lparr>nodes = [], links = []\<rparr>"
  by (rule transform_rejects_bad_shape)
     (simp add: unequalColumns_def columnOrEmpty_def falsySelector_def)




text \<open>No link that the transform returns has an identifier, whatever the input.\<close>

lemma transform_links_without_identifier:
  "l \<in> set (links (transformSigmaDataToSankey nts stn sigmaData sc tc vc)) \<Longrightarrow> link_id l = None"
  by (auto simp: transformSigmaDataToSankey_def emptyChart_def Let_def ingest_links rowLink_def
           split: option.splits if_splits)

text \<open>
  C1. The claim asks for the identifier of the row on every emitted edge when an identifier
  column is supplied. The call site supplies \<open>config.idColumn\<close>, and the chart reads
  \<open>link.id\<close>, but the transform neither takes nor copies it: on the input below, with
  the identifier \<open>x1\<close> in the selected column, the edge has no identifier.
\<close>

theorem sankeyData_drops_identifier:
  "map link_id (links (sankeyData standInNumberToString standInStringToNumber standInAdd
      (Some rowsWithId)
      \<lparr>sourceColumn = Some ''src'', targetColumn = Some ''tgt'', valueColumn = Some ''val'',
       idColumn = Some ''id''\<rparr>)) = [None]"
  by code_simp

section \<open>Properties of validateSankeyData\<close>

lemma validate_present:
  "validateSankeyData nts \<lparr>data_nodes = Some ns, data_links = Some ls\<rparr> =
     \<lparr>isValid = (ns \<noteq> [] \<and> ls \<noteq> [] \<and>
                 filter (\<lambda>l. String nts (source l) \<notin> name ` set ns \<or>
                              String nts (target l) \<notin> name ` set ns) ls = [] \<and>
                 filter (\<lambda>l. num_le0 (val l)) ls = []),
      errors = (if ns = [] then [''No nodes found in data''] else []) @
               (if ls = [] then [''No links found in data''] else []) @
               (if filter (\<lambda>l. String nts (source l) \<notin> name ` set ns \<or>
                                String nts (target l) \<notin> name ` set ns) ls \<noteq> []
                then [''Found '' @ showNat (length (filter (\<lambda>l. String nts (source l) \<notin> name ` set ns \<or>
                                String nts (target l) \<notin> name ` set ns) ls)) @
                      '' links referencing non-existent nodes'']
                else []) @
               (if filter (\<lambda>l. num_le0 (val l)) ls \<noteq> []
                then [''Found '' @ showNat (length (filter (\<lambda>l. num_le0 (val l)) ls)) @
                      '' links with zero or negative values'']
                else []),
      warnings = (if filter (\<lambda>n. name n \<notin> (\<Union>l\<in>set ls. {String nts (source l), String nts (target l)})) ns \<noteq> []
                  then [''Found '' @ showNat (length (filter (\<lambda>n. name n \<notin> (\<Union>l\<in>set ls. {String nts (source l), String nts (target l)})) ns)) @
                        '' orphaned nodes (nodes not connected to any links)'']
                  else []) @
                 (if filter (\<lambda>l. strictEq (source l) (target l)) ls \<noteq> []
                  then [''Found '' @ showNat (length (filter (\<lambda>l. strictEq (source l) (target l)) ls)) @
                        '' self-referencing links'']
                  else [])\<rparr>"
  by (simp add: validateSankeyData_def Let_def)

text \<open>
  C5. \<open>isValid\<close> is true exactly when \<open>errors\<close> is empty, for every input. When nodes
  and links are present, \<open>errors\<close> is empty exactly when there is a node, there is a link,
  no link refers to a name outside the node collection and no link has a value \<open>\<le> 0\<close>,
  each of the four contributing one entry; \<open>warnings\<close> is empty exactly when no node is
  orphaned and no link is a self-loop, each of the two contributing one entry. So orphans
  and self-loops never reach \<open>errors\<close> or \<open>isValid\<close>, and dangling references and
  non-positive values never reach \<open>warnings\<close>.
\<close>

theorem validateSankeyData_sound:
  "isValid (validateSankeyData nts data) = (errors (validateSankeyData nts data) = []) \<and>
   (data_nodes data = Some ns \<and> data_links data = Some ls \<longrightarrow>
      ((errors (validateSankeyData nts data) = []) =
         (ns \<noteq> [] \<and> ls \<noteq> [] \<and>
          (\<forall>l\<in>set ls. String nts (source l) \<in> name ` set ns \<and>
                       String nts (target l) \<in> name ` set ns) \<and>
          (\<forall>l\<in>set ls. \<not> num_le0 (val l)))) \<and>
      ((warnings (validateSankeyData nts data) = []) =
         ((\<forall>n\<in>set ns. \<exists>l\<in>set ls. name n = String nts (source l) \<or>
                                     name n = String nts (target l)) \<and>
          (\<forall>l\<in>set ls. \<not> strictEq (source l) (target l)))) \<and>
      length (errors (validateSankeyData nts data)) =
         (if ns = [] then 1 else 0) + (if ls = [] then 1 else 0) +
         (if \<exists>l\<in>set ls. String nts (source l) \<notin> name ` set ns \<or>
                         String nts (target l) \<notin> name ` set ns then 1 else 0) +
         (if \<exists>l\<in>set ls. num_le0 (val l) then 1 else 0) \<and>
      length (warnings (validateSankeyData nts data)) =
         (if \<exists>n\<in>set ns. \<forall>l\<in>set ls. name n \<noteq> String nts (source l) \<and>
                                     name n \<noteq> String nts (target l) then 1 else 0) +
         (if \<exists>l\<in>set ls. strictEq (source l) (target l) then 1 else 0))"
proof -
  have 1: "isValid (validateSankeyData nts data) = (errors (validateSankeyData nts data) = [])"
    by (simp add: validateSankeyData_def Let_def split: option.splits)
  have 2: ?thesis if d: "data_nodes data = Some ns" "data_links data = Some ls"
  proof -
    have data: "data = \<lparr>data_nodes = Some ns, data_links = Some ls\<rparr>"
      using d by (cases data) simp
    show ?thesis
      unfolding data validate_present
      by (auto simp: filter_empty_conv)
  qed
  show ?thesis using 1 2 by blast
qed

theorem validateSankeyData_sound_witness:
  "isValid (validateSankeyData standInNumberToString orphanAndSelfLoop) = True \<and>
   errors (validateSankeyData standInNumberToString orphanAndSelfLoop) = [] \<and>
   length (warnings (validateSankeyData standInNumberToString orphanAndSelfLoop)) = 2"
proof -
  let ?ns = "[mkNode ''A'', mkNode ''B'', mkNode ''X'']"
  let ?ls = "[mkLink ''A'' ''B'' 10, mkLink ''B'' ''B'' 1]"
  let ?r = "validateSankeyData standInNumberToString orphanAndSelfLoop"
  have present: "data_nodes orphanAndSelfLoop = Some ?ns \<and> data_links orphanAndSelfLoop = Some ?ls"
    by (simp add: orphanAndSelfLoop_def)
  note sound = validateSankeyData_sound[of standInNumberToString orphanAndSelfLoop ?ns ?ls]
  from sound present
  have "(errors ?r = []) =
         (?ns \<noteq> [] \<and> ?ls \<noteq> [] \<and>
          (\<forall>l\<in>set ?ls. String standInNumberToString (source l) \<in> name ` set ?ns \<and>
                       String standInNumberToString (target l) \<in> name ` set ?ns) \<and>
          (\<forall>l\<in>set ?ls. \<not> num_le0 (val l)))"
    by blast
  also have "\<dots> = True" by code_simp
  finally have e: "errors ?r = []" by simp
  from sound have v: "isValid ?r = (errors ?r = [])" by blast
  from sound present
  have "length (warnings ?r) =
         (if \<exists>n\<in>set ?ns. \<forall>l\<in>set ?ls. name n \<noteq> String standInNumberToString (source l) \<and>
                                     name n \<noteq> String standInNumberToString (target l) then 1 else 0) +
         (if \<exists>l\<in>set ?ls. strictEq (source l) (target l) then 1 else 0)"
    by blast
  also have "\<dots> = 2" by code_simp
  finally have w: "length (warnings ?r) = 2" .
  show ?thesis using e v w by simp
qed

section \<open>Properties of calculateNodeDepths\<close>

text \<open>A property that every iteration of the \<open>for\<close> loop preserves holds when the loops end.\<close>

lemma processLevel_preserves:
  assumes step: "\<And>d st. P st \<Longrightarrow> P (visitNode nts ls d st)"
  shows "P st \<Longrightarrow> P (processLevel nts ls d n st)"
  by (induction n arbitrary: st) (simp_all add: step)

lemma bfsLoop_preserves:
  "(\<And>d st. P st \<Longrightarrow> P (visitNode nts ls d st)) \<Longrightarrow> P st \<Longrightarrow> P (bfsLoop nts ls d st)"
proof (induction nts ls d st rule: bfsLoop.induct)
  case (1 nts ls currentDepth st)
  show ?case
  proof (cases "queue st = []")
    case True
    then show ?thesis using "1.prems"(2) by (simp add: bfsLoop.simps)
  next
    case False
    have "P (processLevel nts ls currentDepth (length (queue st)) st)"
    proof (rule processLevel_preserves[where P = P])
      show "\<And>d st. P st \<Longrightarrow> P (visitNode nts ls d st)" by (rule "1.prems"(1))
      show "P st" by (rule "1.prems"(2))
    qed
    then have "P (bfsLoop nts ls (Suc currentDepth)
                   (processLevel nts ls currentDepth (length (queue st)) st))"
      using "1.IH"[OF False "1.prems"(1)] by blast
    then show ?thesis using False by (simp add: bfsLoop.simps)
  qed
qed

subsection \<open>Frame: names, order and the other fields\<close>

lemma depthSet_again:
  "depthSet n0 n \<Longrightarrow> depthSet n0 (n\<lparr>depth := Some (Num (of_nat k))\<rparr>)"
  by (auto simp: depthSet_def)

lemma list_all2_update:
  assumes "list_all2 Q ns M" "map_of M k = Some nd"
    and "\<And>n0. Q n0 (k, nd) \<Longrightarrow> Q n0 (k, nd')"
  shows "list_all2 Q ns (AList.update k nd' M)"
  using assms(1,2)
proof (induction ns M rule: list_all2_induct)
  case Nil
  then show ?case by simp
next
  case (Cons n0 ns p M)
  show ?case
  proof (cases "fst p = k")
    case True
    then have "p = (k, nd)" using Cons.prems by (cases p) simp
    then show ?thesis using Cons.hyps assms(3) by simp
  next
    case False
    then show ?thesis using Cons by simp
  qed
qed

lemma framed_visitNode:
  assumes "framed ns (nodeMap st)"
  shows "framed ns (nodeMap (visitNode nts ls d st))"
proof (cases "queue st")
  case Nil
  then show ?thesis using assms by (simp add: visitNode_def)
next
  case (Cons x rest)
  show ?thesis
  proof (cases "map_of (nodeMap st) x")
    case None
    then show ?thesis using assms Cons by (simp add: visitNode_def)
  next
    case (Some nd)
    have "framed ns (AList.update x (nd\<lparr>depth := Some (Num (of_nat d))\<rparr>) (nodeMap st))"
      unfolding framed_def
      by (rule list_all2_update[OF assms[unfolded framed_def] Some]) (simp add: depthSet_again)
    then show ?thesis using assms Cons Some by (simp add: visitNode_def Let_def)
  qed
qed

lemma initial_nodeMap_distinct:
  "distinct (map name ns) \<Longrightarrow>
   foldl (\<lambda>m n. AList.update (name n) (n\<lparr>depth := Some (Num 0)\<rparr>) m) [] ns
     = map (\<lambda>n. (name n, n\<lparr>depth := Some (Num 0)\<rparr>)) ns"
proof (induction ns rule: rev_induct)
  case Nil
  then show ?case by simp
next
  case (snoc n ns)
  then have "name n \<notin> fst ` set (map (\<lambda>n. (name n, n\<lparr>depth := Some (Num 0)\<rparr>)) ns)"
    by (auto simp: image_image)
  then show ?case using snoc by (simp add: update_absent)
qed

text \<open>
  C10. For a node list with pairwise distinct names, \<open>calculateNodeDepths\<close> returns one
  node per input node, in the input order, each equal to its input node except for the
  depth, which is a natural number.
\<close>

theorem calculateNodeDepths_frame:
  assumes "distinct (map name ns)"
  shows "list_all2 (\<lambda>n0 n. \<exists>k::nat. n = n0\<lparr>depth := Some (Num (of_nat k))\<rparr>)
           ns (calculateNodeDepths nts ns ls)"
proof -
  let ?M0 = "foldl (\<lambda>m n. AList.update (name n) (n\<lparr>depth := Some (Num 0)\<rparr>) m) [] ns"
  have "framed ns ?M0"
    unfolding initial_nodeMap_distinct[OF assms] framed_def depthSet_def
    by (rule list_all2_all_nthI) (auto intro: exI[of _ 0])
  then have "framed ns (nodeMap (bfsLoop nts ls 0 st))" if "nodeMap st = ?M0" for st
    using bfsLoop_preserves[of "\<lambda>st. framed ns (nodeMap st)" nts ls st 0] framed_visitNode that
    by simp
  then have "framed ns (nodeMap (bfsLoop nts ls 0
       \<lparr>nodeMap = ?M0, visited = {},
        inDegree = foldl (countIncoming nts) (foldl (\<lambda>m n. AList.update (name n) 0 m) [] ns) ls,
        queue = map fst (filter (\<lambda>p. snd p = 0)
                  (foldl (countIncoming nts) (foldl (\<lambda>m n. AList.update (name n) 0 m) [] ns) ls))\<rparr>))"
    by simp
  then have "list_all2 (\<lambda>n0 p. \<exists>k::nat. snd p = n0\<lparr>depth := Some (Num (of_nat k))\<rparr>) ns
      (nodeMap (bfsLoop nts ls 0
       \<lparr>nodeMap = ?M0, visited = {},
        inDegree = foldl (countIncoming nts) (foldl (\<lambda>m n. AList.update (name n) 0 m) [] ns) ls,
        queue = map fst (filter (\<lambda>p. snd p = 0)
                  (foldl (countIncoming nts) (foldl (\<lambda>m n. AList.update (name n) 0 m) [] ns) ls))\<rparr>))"
    unfolding framed_def depthSet_def by (rule list_all2_mono) simp
  then show ?thesis
    by (simp add: calculateNodeDepths_def Let_def list_all2_map2)
qed

theorem calculateNodeDepths_frame_witness:
  "list_all2 (\<lambda>n0 n. \<exists>k::nat. n = n0\<lparr>depth := Some (Num (of_nat k))\<rparr>)
     [mkNode ''A'', mkNode ''B'', mkNode ''C'']
     (calculateNodeDepths standInNumberToString [mkNode ''A'', mkNode ''B'', mkNode ''C'']
        [mkLink ''A'' ''B'' 15, mkLink ''B'' ''C'' 3]) \<and>
   map name (calculateNodeDepths standInNumberToString [mkNode ''A'', mkNode ''B'', mkNode ''C'']
        [mkLink ''A'' ''B'' 15, mkLink ''B'' ''C'' 3]) = [''A'', ''B'', ''C'']"
proof -
  have d: "distinct (map name [mkNode ''A'', mkNode ''B'', mkNode ''C''])" by code_simp
  have v: "map name (calculateNodeDepths standInNumberToString [mkNode ''A'', mkNode ''B'', mkNode ''C'']
        [mkLink ''A'' ''B'' 15, mkLink ''B'' ''C'' 3]) = [''A'', ''B'', ''C'']" by code_simp
  show ?thesis by (rule conjI[OF calculateNodeDepths_frame[OF d] v])
qed

subsection \<open>Every node has a depth\<close>

lemma initial_nodeMap_keys:
  "fst ` set (foldl (\<lambda>m n. AList.update (name n) (f n) m) M ns) = fst ` set M \<union> name ` set ns"
  by (induction ns arbitrary: M) (auto simp: dom_update)

lemma countIncoming_keys:
  "fst ` set (foldl (countIncoming nts) B ls) = fst ` set B \<union> (\<lambda>l. String nts (target l)) ` set ls"
  by (induction ls arbitrary: B) (auto simp: countIncoming_def Let_def dom_update)

lemma set_update_subset_insert: "set (AList.update k v al) \<subseteq> insert (k, v) (set al)"
  by (induction al) auto

lemma depthsAssigned_update:
  assumes "depthsAssigned M" "name nd = x"
  shows "depthsAssigned (AList.update x (nd\<lparr>depth := Some (Num (of_nat k))\<rparr>) M)"
  unfolding depthsAssigned_def
proof
  fix p assume "p \<in> set (AList.update x (nd\<lparr>depth := Some (Num (of_nat k))\<rparr>) M)"
  then have "p = (x, nd\<lparr>depth := Some (Num (of_nat k))\<rparr>) \<or> p \<in> set M"
    using set_update_subset_insert[of x _ M] by blast
  then show "name (snd p) = fst p \<and> (\<exists>k::nat. depth (snd p) = Some (Num (of_nat k)))"
    using assms by (auto simp: depthsAssigned_def)
qed

lemma depthsAssigned_initial:
  "depthsAssigned M \<Longrightarrow>
   depthsAssigned (foldl (\<lambda>m n. AList.update (name n) (n\<lparr>depth := Some (Num 0)\<rparr>) m) M ns)"
proof (induction ns arbitrary: M)
  case Nil
  then show ?case by simp
next
  case (Cons n ns)
  have "depthsAssigned (AList.update (name n) (n\<lparr>depth := Some (Num (of_nat 0))\<rparr>) M)"
    using Cons.prems by (rule depthsAssigned_update) simp
  then show ?case using Cons.IH by simp
qed

lemma assigned_visitNode:
  assumes "depthsAssigned (nodeMap st) \<and> fst ` set (nodeMap st) = K"
  shows "depthsAssigned (nodeMap (visitNode nts ls d st)) \<and>
         fst ` set (nodeMap (visitNode nts ls d st)) = K"
proof (cases "queue st")
  case Nil
  then show ?thesis using assms by (simp add: visitNode_def)
next
  case (Cons x rest)
  show ?thesis
  proof (cases "map_of (nodeMap st) x")
    case None
    then show ?thesis using assms Cons by (simp add: visitNode_def)
  next
    case (Some nd)
    then have mem: "(x, nd) \<in> set (nodeMap st)" by (rule map_of_SomeD)
    then have nm: "name nd = x" using assms by (auto simp: depthsAssigned_def)
    have "x \<in> fst ` set (nodeMap st)" using mem by force
    then have keys: "fst ` set (AList.update x v (nodeMap st)) = K" for v
      using assms by (auto simp: dom_update)
    show ?thesis
      using assms Cons Some depthsAssigned_update[OF _ nm, of "nodeMap st" d] keys
      by (simp add: visitNode_def Let_def)
  qed
qed

text \<open>
  C7. Every node of the result has a depth that is a natural number, and the result has a
  node for every input name: a node that the traversal never reaches (a member of a cycle,
  or a node behind one) keeps the depth 0 that \<open>nodeMap\<close> is initialised with. The result
  is a function of the input, so the same input always yields the same depths.
\<close>

theorem calculateNodeDepths_assigns_every_depth:
  "(\<forall>n\<in>set (calculateNodeDepths nts ns ls). \<exists>k::nat. depth n = Some (Num (of_nat k))) \<and>
   name ` set (calculateNodeDepths nts ns ls) = name ` set ns"
proof -
  let ?M0 = "foldl (\<lambda>m n. AList.update (name n) (n\<lparr>depth := Some (Num 0)\<rparr>) m) [] ns"
  let ?P = "\<lambda>st. depthsAssigned (nodeMap st) \<and> fst ` set (nodeMap st) = name ` set ns"
  have init: "depthsAssigned ?M0 \<and> fst ` set ?M0 = name ` set ns"
    using depthsAssigned_initial[of "[]" ns]
    by (simp add: initial_nodeMap_keys depthsAssigned_def)
  have fin: "?P (bfsLoop nts ls 0 st)" if "nodeMap st = ?M0" for st
    using bfsLoop_preserves[of ?P nts ls st 0] assigned_visitNode init that by simp
  let ?st = "\<lparr>nodeMap = ?M0, visited = {},
        inDegree = foldl (countIncoming nts) (foldl (\<lambda>m n. AList.update (name n) 0 m) [] ns) ls,
        queue = map fst (filter (\<lambda>p. snd p = 0)
                  (foldl (countIncoming nts) (foldl (\<lambda>m n. AList.update (name n) 0 m) [] ns) ls))\<rparr>"
  have P: "?P (bfsLoop nts ls 0 ?st)" by (rule fin) simp
  have res: "calculateNodeDepths nts ns ls = map snd (nodeMap (bfsLoop nts ls 0 ?st))"
    by (simp add: calculateNodeDepths_def Let_def)
  have 1: "\<forall>n\<in>set (calculateNodeDepths nts ns ls). \<exists>k::nat. depth n = Some (Num (of_nat k))"
    using P unfolding res depthsAssigned_def by auto
  have "map name (map snd (nodeMap (bfsLoop nts ls 0 ?st))) = map fst (nodeMap (bfsLoop nts ls 0 ?st))"
    using P unfolding depthsAssigned_def by simp
  from arg_cong[OF this, of set]
  have "name ` set (calculateNodeDepths nts ns ls) = fst ` set (nodeMap (bfsLoop nts ls 0 ?st))"
    unfolding res by (simp only: set_map)
  then have 2: "name ` set (calculateNodeDepths nts ns ls) = name ` set ns" using P by simp
  show ?thesis using 1 2 by blast
qed

theorem calculateNodeDepths_assigns_every_depth_witness:
  "map depth (calculateNodeDepths standInNumberToString [mkNode ''A'', mkNode ''B'']
                [mkLink ''A'' ''B'' 1, mkLink ''B'' ''A'' 1]) = [Some (Num 0), Some (Num 0)] \<and>
   (\<exists>k::nat. depth (hd (calculateNodeDepths standInNumberToString [mkNode ''A'', mkNode ''B'']
                [mkLink ''A'' ''B'' 1, mkLink ''B'' ''A'' 1])) = Some (Num (of_nat k)))"
proof -
  let ?r = "calculateNodeDepths standInNumberToString [mkNode ''A'', mkNode ''B'']
                [mkLink ''A'' ''B'' 1, mkLink ''B'' ''A'' 1]"
  have v: "map depth ?r = [Some (Num 0), Some (Num 0)]" by code_simp
  then have "?r \<noteq> []" by auto
  then have "hd ?r \<in> set ?r" by simp
  with calculateNodeDepths_assigns_every_depth[of standInNumberToString
      "[mkNode ''A'', mkNode ''B'']" "[mkLink ''A'' ''B'' 1, mkLink ''B'' ''A'' 1]"]
  have "\<exists>k::nat. depth (hd ?r) = Some (Num (of_nat k))" by blast
  with v show ?thesis by blast
qed

subsection \<open>Links into names outside the node collection\<close>

text \<open>
  Two runs are compared: one on all links, one on the links whose target is in the node
  collection \<open>K\<close>. They agree on \<open>nodeMap\<close>, on \<open>visited\<close> and on the in-degree of every
  name in \<open>K\<close>, and the queue of the second is the queue of the first without the names
  outside \<open>K\<close>, which the first run dequeues and skips.
\<close>

lemma update_append_in:
  "k \<in> fst ` set xs \<Longrightarrow> AList.update k v (xs @ ys) = AList.update k v xs @ ys"
  by (induction xs) auto

lemma update_append_out:
  "k \<notin> fst ` set xs \<Longrightarrow> AList.update k v (xs @ ys) = xs @ AList.update k v ys"
  by (induction xs) auto

lemma getOrZero_update:
  "getOrZero (AList.update k v m) y = (if y = k then v else getOrZero m y)"
  by (simp add: getOrZero_def update_conv')

lemma getOrZero_append_in:
  "k \<in> fst ` set xs \<Longrightarrow> getOrZero (xs @ ys) k = getOrZero xs k"
  by (auto simp: getOrZero_def map_add_def dom_map_of_conv_image_fst[symmetric] split: option.splits)

lemma getOrZero_append_out:
  assumes "k \<notin> fst ` set xs"
  shows "getOrZero (xs @ ys) k = getOrZero ys k"
proof -
  have "map_of xs k = None" using assms by (simp add: map_of_eq_None_iff)
  then show ?thesis by (simp add: getOrZero_def map_add_def)
qed

lemma getOrZero_nonneg: "\<forall>p\<in>set m. 0 < snd p \<Longrightarrow> 0 \<le> getOrZero m k"
  by (auto simp: getOrZero_def split: option.splits dest!: map_of_SomeD)

lemma countIncoming_filter:
  assumes "fst ` set B = K" "fst ` set ex \<inter> K = {}" "\<forall>p\<in>set ex. 0 < snd p"
  shows "\<exists>ex'. foldl (countIncoming nts) (B @ ex) ls
               = foldl (countIncoming nts) B (filter (\<lambda>l. String nts (target l) \<in> K) ls) @ ex' \<and>
              fst ` set ex' \<inter> K = {} \<and> (\<forall>p\<in>set ex'. 0 < snd p)"
  using assms
proof (induction ls arbitrary: B ex)
  case Nil
  then show ?case by auto
next
  case (Cons l ls)
  let ?t = "String nts (target l)"
  show ?case
  proof (cases "?t \<in> K")
    case True
    then have tin: "?t \<in> fst ` set B" using Cons.prems(1) by simp
    have step: "countIncoming nts (B @ ex) l = countIncoming nts B l @ ex"
      using tin by (simp add: countIncoming_def Let_def update_append_in getOrZero_append_in)
    have keys: "fst ` set (countIncoming nts B l) = K"
      using tin Cons.prems(1) by (auto simp: countIncoming_def Let_def dom_update)
    from Cons.IH[OF keys Cons.prems(2,3)] show ?thesis
      using True by (simp add: step)
  next
    case False
    then have tout: "?t \<notin> fst ` set B" using Cons.prems(1) by simp
    let ?ex = "AList.update ?t (getOrZero ex ?t + 1) ex"
    have step: "countIncoming nts (B @ ex) l = B @ ?ex"
      using tout by (simp add: countIncoming_def Let_def update_append_out getOrZero_append_out)
    have k: "fst ` set ?ex \<inter> K = {}"
      using Cons.prems(2) False by (auto simp: dom_update)
    have "0 < getOrZero ex ?t + 1" using getOrZero_nonneg[OF Cons.prems(3), of ?t] by simp
    then have p: "\<forall>p\<in>set ?ex. 0 < snd p"
      using Cons.prems(3) set_update_subset_insert[of ?t "getOrZero ex ?t + 1" ex] by auto
    from Cons.IH[OF Cons.prems(1) k p] show ?thesis
      using False by (simp add: step)
  qed
qed

lemma relaxLink_sim_known:
  assumes "simAcc K a b" "String nts (target l) \<in> K"
  shows "simAcc K (relaxLink nts x vis a l) (relaxLink nts x vis b l)"
  using assms by (auto simp: simAcc_def relaxLink_def Let_def getOrZero_update)

lemma relaxLink_sim_unknown:
  assumes "simAcc K a b" "String nts (target l) \<notin> K"
  shows "simAcc K (relaxLink nts x vis a l) b"
  using assms by (auto simp: simAcc_def relaxLink_def Let_def getOrZero_update)

lemma relax_sim:
  "simAcc K a b \<Longrightarrow>
   simAcc K (foldl (relaxLink nts x vis) a ls)
            (foldl (relaxLink nts x vis) b (filter (\<lambda>l. String nts (target l) \<in> K) ls))"
proof (induction ls arbitrary: a b)
  case Nil
  then show ?case by simp
next
  case (Cons l ls)
  show ?case
  proof (cases "String nts (target l) \<in> K")
    case True
    from Cons.IH[OF relaxLink_sim_known[OF Cons.prems True]] show ?thesis using True by simp
  next
    case False
    from Cons.IH[OF relaxLink_sim_unknown[OF Cons.prems False]] show ?thesis using False by simp
  qed
qed

lemma relax_queue_prefix:
  "\<exists>p. snd (foldl (relaxLink nts x vis) a ls) = snd a @ p"
proof (induction ls arbitrary: a)
  case Nil
  then show ?case by simp
next
  case (Cons l ls)
  obtain p where p: "snd (foldl (relaxLink nts x vis) (relaxLink nts x vis a l) ls)
                      = snd (relaxLink nts x vis a l) @ p"
    using Cons[of "relaxLink nts x vis a l"] by blast
  have "\<exists>p'. snd (relaxLink nts x vis a l) = snd a @ p'"
    by (simp add: relaxLink_def Let_def)
  then show ?case using p by auto
qed

lemma visitNode_queue_prefix:
  assumes "queue st = x # rest"
  shows "\<exists>p. queue (visitNode nts ls d st) = rest @ p"
  using assms relax_queue_prefix[of nts x "insert x (visited st)" "(inDegree st, rest)" ls]
  by (auto simp: visitNode_def Let_def split: option.splits)

lemma visit_sim_unknown:
  assumes "simState K a b" "queue a = x # rest" "x \<notin> K"
  shows "simState K (visitNode nts ls d a) b"
proof -
  from assms(1) have "fst ` set (nodeMap a) = K" unfolding simState_def by blast
  then have "map_of (nodeMap a) x = None"
    using assms(3) by (simp add: map_of_eq_None_iff)
  then show ?thesis using assms unfolding simState_def by (auto simp: visitNode_def)
qed

lemma visit_sim_known:
  assumes "simState K a b" "queue a = x # rest" "x \<in> K"
  shows "simState K (visitNode nts ls d a)
           (visitNode nts (filter (\<lambda>l. String nts (target l) \<in> K) ls) d b)"
proof -
  let ?ls' = "filter (\<lambda>l. String nts (target l) \<in> K) ls"
  from assms have qb: "queue b = x # filter (\<lambda>y. y \<in> K) rest" by (simp add: simState_def)
  from assms(1) have eq: "nodeMap a = nodeMap b" "visited a = visited b"
    "fst ` set (nodeMap a) = K" unfolding simState_def by blast+
  show ?thesis
  proof (cases "map_of (nodeMap a) x")
    case None
    then show ?thesis using assms qb eq by (simp add: visitNode_def simState_def)
  next
    case (Some nd)
    show ?thesis
    proof (cases "x \<in> visited a")
      case True
      then show ?thesis using assms qb eq Some by (simp add: visitNode_def simState_def)
    next
      case False
      let ?vis = "insert x (visited a)"
      have "simAcc K (inDegree a, rest) (inDegree b, filter (\<lambda>y. y \<in> K) rest)"
        using assms(1) by (simp add: simAcc_def simState_def)
      from relax_sim[OF this, of nts x ?vis ls]
      have acc: "simAcc K (foldl (relaxLink nts x ?vis) (inDegree a, rest) ls)
                   (foldl (relaxLink nts x ?vis) (inDegree b, filter (\<lambda>y. y \<in> K) rest) ?ls')" .
      have xk: "x \<in> fst ` set (nodeMap a)" using eq(3) assms(3) by simp
      have keys: "fst ` set (AList.update x v (nodeMap a)) = K" for v
        using xk eq(3) by (auto simp: dom_update)
      show ?thesis
        using acc False Some eq keys
        by (simp add: visitNode_def assms(2) qb Let_def simState_def simAcc_def)
    qed
  qed
qed

lemma level_sim:
  "simState K a b \<Longrightarrow> n \<le> length (queue a) \<Longrightarrow>
   simState K (processLevel nts ls d n a)
     (processLevel nts (filter (\<lambda>l. String nts (target l) \<in> K) ls) d
        (length (filter (\<lambda>y. y \<in> K) (take n (queue a)))) b)"
proof (induction n arbitrary: a b)
  case 0
  then show ?case by simp
next
  case (Suc n)
  then obtain x rest where q: "queue a = x # rest" by (cases "queue a") auto
  obtain p where p: "queue (visitNode nts ls d a) = rest @ p"
    using visitNode_queue_prefix[OF q] by blast
  have n: "n \<le> length rest" using Suc.prems(2) q by simp
  then have len: "n \<le> length (queue (visitNode nts ls d a))" by (simp add: p)
  have tk: "take n (queue (visitNode nts ls d a)) = take n rest" using n by (simp add: p)
  show ?case
  proof (cases "x \<in> K")
    case True
    from Suc.IH[OF visit_sim_known[OF Suc.prems(1) q True] len]
    show ?thesis using True by (simp add: q tk)
  next
    case False
    from Suc.IH[OF visit_sim_unknown[OF Suc.prems(1) q False] len]
    show ?thesis using False by (simp add: q tk)
  qed
qed

lemma bfs_sim:
  "simState K a b \<Longrightarrow>
   nodeMap (bfsLoop nts ls d a)
     = nodeMap (bfsLoop nts (filter (\<lambda>l. String nts (target l) \<in> K) ls) d b)"
proof (induction nts ls d a arbitrary: b rule: bfsLoop.induct)
  case (1 nts ls d a)
  let ?ls' = "filter (\<lambda>l. String nts (target l) \<in> K) ls"
  from "1.prems" have qb: "queue b = filter (\<lambda>y. y \<in> K) (queue a)" by (simp add: simState_def)
  show ?case
  proof (cases "queue a = []")
    case True
    then have "queue b = []" using qb by simp
    then show ?thesis using True "1.prems" by (simp add: bfsLoop.simps simState_def)
  next
    case False
    let ?a' = "processLevel nts ls d (length (queue a)) a"
    let ?b' = "processLevel nts ?ls' d (length (queue b)) b"
    have sim: "simState K ?a' ?b'"
      using level_sim[OF "1.prems", of "length (queue a)" nts ls d] by (simp add: qb)
    have IH: "nodeMap (bfsLoop nts ls (Suc d) ?a') = nodeMap (bfsLoop nts ?ls' (Suc d) b')"
      if "simState K ?a' b'" for b'
      using "1.IH"[OF False that] .
    show ?thesis
    proof (cases "queue b = []")
      case True
      then have "?b' = b" by simp
      with sim IH[of b] True show ?thesis
        using False by (simp add: bfsLoop.simps[of nts ls d a] bfsLoop.simps[of nts ?ls' _ b])
    next
      case qbne: False
      from IH[OF sim] show ?thesis
        using False qbne by (simp add: bfsLoop.simps[of nts ls d a] bfsLoop.simps[of nts ?ls' d b])
    qed
  qed
qed

text \<open>
  C6, as amended. The function is total (its loops terminate on every input), and links
  whose target is absent from the node collection are ignored: the result is the same as on
  the list without them.
\<close>

theorem calculateNodeDepths_ignores_unknown_targets:
  "calculateNodeDepths nts ns (filter (\<lambda>l. String nts (target l) \<in> name ` set ns) ls)
     = calculateNodeDepths nts ns ls"
proof -
  let ?K = "name ` set ns"
  let ?ls' = "filter (\<lambda>l. String nts (target l) \<in> ?K) ls"
  let ?M0 = "foldl (\<lambda>m n. AList.update (name n) (n\<lparr>depth := Some (Num 0)\<rparr>) m) [] ns"
  let ?D0 = "foldl (\<lambda>m n. AList.update (name n) (0::int) m) [] ns"
  let ?B = "foldl (countIncoming nts) ?D0 ?ls'"
  let ?A = "foldl (countIncoming nts) ?D0 ls"
  let ?q = "\<lambda>m::(string \<times> int) list. map fst (filter (\<lambda>p. snd p = 0) m)"
  let ?a = "\<lparr>nodeMap = ?M0, visited = {}, inDegree = ?A, queue = ?q ?A\<rparr>"
  let ?b = "\<lparr>nodeMap = ?M0, visited = {}, inDegree = ?B, queue = ?q ?B\<rparr>"
  have kM: "fst ` set ?M0 = ?K" by (simp add: initial_nodeMap_keys)
  have kD: "fst ` set ?D0 = ?K" by (simp add: initial_nodeMap_keys)
  have kB: "fst ` set ?B = ?K" by (auto simp: countIncoming_keys kD)
  from countIncoming_filter[of ?D0 ?K "[]" nts ls] kD
  obtain ex where ex: "?A = ?B @ ex" "fst ` set ex \<inter> ?K = {}" "\<forall>p\<in>set ex. 0 < snd p"
    by auto
  have "filter (\<lambda>p. snd p = 0) ex = []" using ex(3) by (auto simp: filter_empty_conv)
  then have q: "?q ?A = ?q ?B" by (simp add: ex(1))
  have "set (?q ?B) \<subseteq> ?K" using kB by force
  then have qf: "filter (\<lambda>y. y \<in> ?K) (?q ?B) = ?q ?B" by (intro filter_True) blast
  have deg: "\<forall>y\<in>?K. getOrZero ?A y = getOrZero ?B y"
    using kB by (simp add: ex(1) getOrZero_append_in)
  have "simState ?K ?a ?b"
    unfolding simState_def using kM deg q qf by simp
  from bfs_sim[OF this, of nts ls 0]
  show ?thesis by (simp add: calculateNodeDepths_def Let_def)
qed

text \<open>
  C6 as stated fails: a link from an unknown source into a known target counts in the
  in-degree of its target and is never discounted. With nodes A and T and links A->T and
  U->T, T keeps depth 0; without the link U->T it gets depth 1.
\<close>

theorem dangling_source_blocks_target:
  "calculateNodeDepths standInNumberToString [mkNode ''A'', mkNode ''T'']
     (filter (\<lambda>l. String standInNumberToString (source l) \<in> name ` set [mkNode ''A'', mkNode ''T''] \<and>
                  String standInNumberToString (target l) \<in> name ` set [mkNode ''A'', mkNode ''T''])
        [mkLink ''A'' ''T'' 1, mkLink ''U'' ''T'' 1])
   \<noteq> calculateNodeDepths standInNumberToString [mkNode ''A'', mkNode ''T'']
        [mkLink ''A'' ''T'' 1, mkLink ''U'' ''T'' 1]"
  by code_simp

subsection \<open>Layering\<close>

lemma incoming_insert:
  "x \<notin> V \<Longrightarrow> incoming nts ls V y = incoming nts ls (insert x V) y + fromTo nts ls x y"
  by (induction ls) (auto simp: incoming_def fromTo_def)

lemma incoming_zero:
  "(incoming nts ls V y = 0) =
     (\<forall>l\<in>set ls. String nts (target l) = y \<longrightarrow> String nts (source l) \<in> V)"
  by (auto simp: incoming_def filter_empty_conv)

lemma fromTo_Cons:
  "fromTo nts (l # ls) x y =
     (if String nts (source l) = x \<and> String nts (target l) = y then 1 else 0) + fromTo nts ls x y"
  by (simp add: fromTo_def)

lemma relaxLink_other:
  "String nts (source l) \<noteq> x \<Longrightarrow> relaxLink nts x vis a l = a"
  by (simp add: relaxLink_def)

lemma relaxLink_hit:
  assumes "String nts (source l) = x"
  shows "getOrZero (fst (relaxLink nts x vis a l)) y =
           (if y = String nts (target l) then getOrZero (fst a) y - 1 else getOrZero (fst a) y)"
    and "snd (relaxLink nts x vis a l) =
           snd a @ (if getOrZero (fst a) (String nts (target l)) = 1 \<and> String nts (target l) \<notin> vis
                    then [String nts (target l)] else [])"
  using assms by (auto simp: relaxLink_def Let_def getOrZero_update)

lemma relax_effect:
  assumes "\<forall>y. int (fromTo nts ls x y) \<le> getOrZero (fst a) y"
  shows "\<exists>p. snd (foldl (relaxLink nts x vis) a ls) = snd a @ p \<and>
             set p = {y. 0 < fromTo nts ls x y \<and> getOrZero (fst a) y = int (fromTo nts ls x y) \<and>
                         y \<notin> vis} \<and>
             (\<forall>y. getOrZero (fst (foldl (relaxLink nts x vis) a ls)) y
                    = getOrZero (fst a) y - int (fromTo nts ls x y))"
  using assms
proof (induction ls arbitrary: a)
  case Nil
  then show ?case by (simp add: fromTo_def)
next
  case (Cons l ls)
  show ?case
  proof (cases "String nts (source l) = x")
    case False
    then have f: "fromTo nts (l # ls) x y = fromTo nts ls x y" for y by (simp add: fromTo_Cons)
    from Cons.IH[of a] Cons.prems show ?thesis
      by (simp add: relaxLink_other[OF False] f)
  next
    case True
    let ?t = "String nts (target l)"
    let ?a = "relaxLink nts x vis a l"
    let ?g = "getOrZero (fst a)"
    have f: "fromTo nts (l # ls) x y = (if y = ?t then 1 else 0) + fromTo nts ls x y" for y
      using True by (auto simp: fromTo_Cons)
    have g': "getOrZero (fst ?a) y = (if y = ?t then ?g y - 1 else ?g y)" for y
      by (rule relaxLink_hit(1)[OF True])
    have q': "snd ?a = snd a @ (if ?g ?t = 1 \<and> ?t \<notin> vis then [?t] else [])"
      by (rule relaxLink_hit(2)[OF True])
    have bound: "int (fromTo nts ls x y) \<le> getOrZero (fst ?a) y" for y
      using Cons.prems[rule_format, of y] by (cases "y = ?t") (simp_all add: f g')
    from Cons.IH[of ?a] bound obtain p where
      p: "snd (foldl (relaxLink nts x vis) ?a ls) = snd ?a @ p"
      and sp: "set p = {y. 0 < fromTo nts ls x y \<and> getOrZero (fst ?a) y = int (fromTo nts ls x y) \<and>
                         y \<notin> vis}"
      and gp: "\<forall>y. getOrZero (fst (foldl (relaxLink nts x vis) ?a ls)) y
                    = getOrZero (fst ?a) y - int (fromTo nts ls x y)"
      by blast
    let ?p0 = "if ?g ?t = 1 \<and> ?t \<notin> vis then [?t] else []"
    have 1: "snd (foldl (relaxLink nts x vis) a (l # ls)) = snd a @ (?p0 @ p)"
      by (simp add: p q')
    have bt: "1 + int (fromTo nts ls x ?t) \<le> ?g ?t"
      using Cons.prems[rule_format, of ?t] by (simp add: f)
    have 2: "set (?p0 @ p) = {y. 0 < fromTo nts (l # ls) x y \<and>
                 ?g y = int (fromTo nts (l # ls) x y) \<and> y \<notin> vis}"
    proof (rule set_eqI)
      fix y
      show "y \<in> set (?p0 @ p) \<longleftrightarrow> y \<in> {y. 0 < fromTo nts (l # ls) x y \<and>
                 ?g y = int (fromTo nts (l # ls) x y) \<and> y \<notin> vis}"
      proof (cases "y = ?t")
        case False
        then show ?thesis by (simp add: sp f g')
      next
        case yt: True
        show ?thesis using bt unfolding yt by (auto simp: sp f g')
      qed
    qed
    have 3: "\<forall>y. getOrZero (fst (foldl (relaxLink nts x vis) a (l # ls))) y
                    = ?g y - int (fromTo nts (l # ls) x y)"
      using gp by (simp add: f g')
    show ?thesis using 1 2 3 by blast
  qed
qed

lemma hasDepth_update:
  "hasDepth (AList.update x (nd\<lparr>depth := Some (Num (of_nat d))\<rparr>) M) y k =
     (if y = x then k = d else hasDepth M y k)"
  by (auto simp: hasDepth_def update_conv')

lemma layerInvD:
  assumes "layerInv nts ls d n st"
  shows "n \<le> length (queue st)"
    and "\<And>y. getOrZero (inDegree st) y = int (incoming nts ls (visited st) y)"
    and "\<And>x. x \<in> visited st \<Longrightarrow> \<exists>k\<le>d. hasDepth (nodeMap st) x k"
    and "\<And>l. l \<in> set ls \<Longrightarrow> String nts (target l) \<in> visited st \<Longrightarrow>
           String nts (source l) \<in> visited st \<and>
           (\<exists>ks kt. hasDepth (nodeMap st) (String nts (source l)) ks \<and>
                    hasDepth (nodeMap st) (String nts (target l)) kt \<and> ks < kt)"
    and "\<And>y. y \<in> set (take n (queue st)) \<Longrightarrow> srcsBelow nts ls (visited st) (nodeMap st) y d"
    and "\<And>y. y \<in> set (drop n (queue st)) \<Longrightarrow> srcsBelow nts ls (visited st) (nodeMap st) y (Suc d)"
    and "\<And>y. y \<in> fst ` set (nodeMap st) \<Longrightarrow> incoming nts ls (visited st) y = 0 \<Longrightarrow>
           y \<in> visited st \<or> y \<in> set (queue st)"
  using assms unfolding layerInv_def by blast+

lemma layerInvI:
  assumes "n \<le> length (queue st)"
    and "\<And>y. getOrZero (inDegree st) y = int (incoming nts ls (visited st) y)"
    and "\<And>x. x \<in> visited st \<Longrightarrow> \<exists>k\<le>d. hasDepth (nodeMap st) x k"
    and "\<And>l. l \<in> set ls \<Longrightarrow> String nts (target l) \<in> visited st \<Longrightarrow>
           String nts (source l) \<in> visited st \<and>
           (\<exists>ks kt. hasDepth (nodeMap st) (String nts (source l)) ks \<and>
                    hasDepth (nodeMap st) (String nts (target l)) kt \<and> ks < kt)"
    and "\<And>y. y \<in> set (take n (queue st)) \<Longrightarrow> srcsBelow nts ls (visited st) (nodeMap st) y d"
    and "\<And>y. y \<in> set (drop n (queue st)) \<Longrightarrow> srcsBelow nts ls (visited st) (nodeMap st) y (Suc d)"
    and "\<And>y. y \<in> fst ` set (nodeMap st) \<Longrightarrow> incoming nts ls (visited st) y = 0 \<Longrightarrow>
           y \<in> visited st \<or> y \<in> set (queue st)"
  shows "layerInv nts ls d n st"
  using assms unfolding layerInv_def by blast

lemma srcsBelow_visit:
  assumes "srcsBelow nts ls V M y b" "x \<notin> V"
  shows "srcsBelow nts ls (insert x V) (AList.update x (nd\<lparr>depth := Some (Num (of_nat d))\<rparr>) M) y b"
  unfolding srcsBelow_def
proof (intro ballI impI)
  fix l assume l: "l \<in> set ls" "String nts (target l) = y"
  with assms(1) have s: "String nts (source l) \<in> V"
    and k: "\<exists>k<b. hasDepth M (String nts (source l)) k"
    by (auto simp: srcsBelow_def)
  from s assms(2) have "String nts (source l) \<noteq> x" by auto
  then show "String nts (source l) \<in> insert x V \<and>
     (\<exists>k<b. hasDepth (AList.update x (nd\<lparr>depth := Some (Num (of_nat d))\<rparr>) M) (String nts (source l)) k)"
    using s k by (simp add: hasDepth_update)
qed

lemma srcsBelow_of_zero:
  assumes "incoming nts ls V y = 0" "\<forall>z\<in>V. \<exists>k\<le>d. hasDepth M z k"
  shows "srcsBelow nts ls V M y (Suc d)"
  unfolding srcsBelow_def
proof (intro ballI impI)
  fix l assume l: "l \<in> set ls" "String nts (target l) = y"
  with assms(1) have s: "String nts (source l) \<in> V" by (simp add: incoming_zero)
  with assms(2) obtain k where "k \<le> d" "hasDepth M (String nts (source l)) k" by blast
  then have "\<exists>k<Suc d. hasDepth M (String nts (source l)) k" by (auto simp: less_Suc_eq_le)
  with s show "String nts (source l) \<in> V \<and> (\<exists>k<Suc d. hasDepth M (String nts (source l)) k)" by simp
qed

lemma visitNode_skip:
  assumes "queue st = x # rest" "map_of (nodeMap st) x = None \<or> x \<in> visited st"
  shows "visitNode nts ls d st = st\<lparr>queue := rest\<rparr>"
  using assms by (auto simp: visitNode_def split: option.splits)

lemma visitNode_visit:
  assumes "queue st = x # rest" "map_of (nodeMap st) x = Some nd" "x \<notin> visited st"
  shows "visitNode nts ls d st =
     \<lparr>nodeMap = AList.update x (nd\<lparr>depth := Some (Num (of_nat d))\<rparr>) (nodeMap st),
      visited = insert x (visited st),
      inDegree = fst (foldl (relaxLink nts x (insert x (visited st))) (inDegree st, rest) ls),
      queue = snd (foldl (relaxLink nts x (insert x (visited st))) (inDegree st, rest) ls)\<rparr>"
  using assms by (simp add: visitNode_def Let_def)

lemma layerInv_skip:
  assumes inv: "layerInv nts ls d (Suc n) st"
    and q: "queue st = x # rest"
    and skip: "map_of (nodeMap st) x = None \<or> x \<in> visited st"
  shows "layerInv nts ls d n (st\<lparr>queue := rest\<rparr>)"
proof (rule layerInvI)
  note D = layerInvD[OF inv]
  show "n \<le> length (queue (st\<lparr>queue := rest\<rparr>))" using D(1) by (simp add: q)
  show "getOrZero (inDegree (st\<lparr>queue := rest\<rparr>)) y
          = int (incoming nts ls (visited (st\<lparr>queue := rest\<rparr>)) y)" for y
    using D(2) by simp
  show "\<exists>k\<le>d. hasDepth (nodeMap (st\<lparr>queue := rest\<rparr>)) z k"
    if "z \<in> visited (st\<lparr>queue := rest\<rparr>)" for z
    using D(3)[of z] that by simp
  show "String nts (source l) \<in> visited (st\<lparr>queue := rest\<rparr>) \<and>
        (\<exists>ks kt. hasDepth (nodeMap (st\<lparr>queue := rest\<rparr>)) (String nts (source l)) ks \<and>
                 hasDepth (nodeMap (st\<lparr>queue := rest\<rparr>)) (String nts (target l)) kt \<and> ks < kt)"
    if "l \<in> set ls" "String nts (target l) \<in> visited (st\<lparr>queue := rest\<rparr>)" for l
    using D(4)[of l] that by simp
  show "srcsBelow nts ls (visited (st\<lparr>queue := rest\<rparr>)) (nodeMap (st\<lparr>queue := rest\<rparr>)) y d"
    if "y \<in> set (take n (queue (st\<lparr>queue := rest\<rparr>)))" for y
  proof -
    from that have "y \<in> set (take (Suc n) (queue st))" by (simp add: q)
    from D(5)[OF this] show ?thesis by simp
  qed
  show "srcsBelow nts ls (visited (st\<lparr>queue := rest\<rparr>)) (nodeMap (st\<lparr>queue := rest\<rparr>)) y (Suc d)"
    if "y \<in> set (drop n (queue (st\<lparr>queue := rest\<rparr>)))" for y
  proof -
    from that have "y \<in> set (drop (Suc n) (queue st))" by (simp add: q)
    from D(6)[OF this] show ?thesis by simp
  qed
  show "y \<in> visited (st\<lparr>queue := rest\<rparr>) \<or> y \<in> set (queue (st\<lparr>queue := rest\<rparr>))"
    if "y \<in> fst ` set (nodeMap (st\<lparr>queue := rest\<rparr>))"
       "incoming nts ls (visited (st\<lparr>queue := rest\<rparr>)) y = 0" for y
  proof -
    from that have y: "y \<in> fst ` set (nodeMap st)" "incoming nts ls (visited st) y = 0" by simp_all
    from D(7)[OF y] have "y \<in> visited st \<or> y = x \<or> y \<in> set rest" by (simp add: q)
    moreover have "x \<in> visited st" if "y = x"
    proof -
      have "map_of (nodeMap st) x \<noteq> None"
        using y(1) that by (simp add: map_of_eq_None_iff)
      with skip show ?thesis by blast
    qed
    ultimately show ?thesis by auto
  qed
qed

lemma layerInv_visit:
  assumes inv: "layerInv nts ls d (Suc n) st"
    and q: "queue st = x # rest"
    and nd: "map_of (nodeMap st) x = Some nd"
    and nv: "x \<notin> visited st"
  shows "layerInv nts ls d n (visitNode nts ls d st)"
proof -
  note D = layerInvD[OF inv]
  let ?V = "visited st" and ?M = "nodeMap st"
  let ?V' = "insert x (visited st)"
  let ?M' = "AList.update x (nd\<lparr>depth := Some (Num (of_nat d))\<rparr>) (nodeMap st)"
  let ?acc = "foldl (relaxLink nts x ?V') (inDegree st, rest) ls"
  let ?st' = "visitNode nts ls d st"
  have st': "?st' = \<lparr>nodeMap = ?M', visited = ?V', inDegree = fst ?acc, queue = snd ?acc\<rparr>"
    by (rule visitNode_visit[OF q nd nv])
  have sel: "nodeMap ?st' = ?M'" "visited ?st' = ?V'" "inDegree ?st' = fst ?acc" "queue ?st' = snd ?acc"
    by (simp_all add: st')
  have bound: "\<forall>y. int (fromTo nts ls x y) \<le> getOrZero (fst (inDegree st, rest)) y"
    using D(2) incoming_insert[OF nv, of nts ls] by simp
  from relax_effect[OF bound, of ?V'] obtain p where
    qp: "snd ?acc = rest @ p"
    and sp: "set p = {y. 0 < fromTo nts ls x y \<and>
                        getOrZero (inDegree st) y = int (fromTo nts ls x y) \<and> y \<notin> ?V'}"
    and gp: "\<And>y. getOrZero (fst ?acc) y = getOrZero (inDegree st) y - int (fromTo nts ls x y)"
    by auto
  have n: "n \<le> length rest" using D(1) by (simp add: q)
  have deg: "getOrZero (fst ?acc) y = int (incoming nts ls ?V' y)" for y
    using gp[of y] D(2)[of y] incoming_insert[OF nv, of nts ls y] by simp
  have dep_x: "hasDepth ?M' x d" by (simp add: hasDepth_update)
  have dep_old: "hasDepth ?M' z k = hasDepth ?M z k" if "z \<in> ?V" for z k
    using that nv by (auto simp: hasDepth_update)
  have vis_dep: "\<exists>k\<le>d. hasDepth ?M' z k" if "z \<in> ?V'" for z
  proof (cases "z = x")
    case True
    then show ?thesis using dep_x by auto
  next
    case False
    with that have "z \<in> ?V" by simp
    with D(3)[OF this] dep_old[OF this] show ?thesis by simp
  qed
  have head: "srcsBelow nts ls ?V ?M x d"
    by (rule D(5)) (simp add: q)
  have keys: "fst ` set ?M' = fst ` set ?M"
    using nd by (auto simp: dom_update dest!: map_of_SomeD intro: rev_image_eqI)
  show ?thesis
  proof (rule layerInvI)
    show "n \<le> length (queue ?st')" using n by (simp add: sel qp)
    show "getOrZero (inDegree ?st') y = int (incoming nts ls (visited ?st') y)" for y
      by (simp add: sel deg)
    show "\<exists>k\<le>d. hasDepth (nodeMap ?st') z k" if "z \<in> visited ?st'" for z
      using vis_dep[of z] that by (simp add: sel)
    show "String nts (source l) \<in> visited ?st' \<and>
        (\<exists>ks kt. hasDepth (nodeMap ?st') (String nts (source l)) ks \<and>
                 hasDepth (nodeMap ?st') (String nts (target l)) kt \<and> ks < kt)"
      if l: "l \<in> set ls" "String nts (target l) \<in> visited ?st'" for l
    proof (cases "String nts (target l) = x")
      case True
      from head l(1) True obtain k where s: "String nts (source l) \<in> ?V"
        and k: "k < d" "hasDepth ?M (String nts (source l)) k"
        by (auto simp: srcsBelow_def)
      have "hasDepth ?M' (String nts (source l)) k" using k(2) dep_old[OF s] by simp
      moreover have "hasDepth ?M' (String nts (target l)) d" using dep_x True by simp
      ultimately show ?thesis using s k(1) by (auto simp: sel)
    next
      case False
      with l(2) have t: "String nts (target l) \<in> ?V" by (simp add: sel)
      from D(4)[OF l(1) t] obtain ks kt where s: "String nts (source l) \<in> ?V"
        and k: "hasDepth ?M (String nts (source l)) ks" "hasDepth ?M (String nts (target l)) kt"
               "ks < kt"
        by blast
      have "hasDepth ?M' (String nts (source l)) ks" "hasDepth ?M' (String nts (target l)) kt"
        using k dep_old[OF s] dep_old[OF t] by simp_all
      then show ?thesis using s k(3) by (auto simp: sel)
    qed
    show "srcsBelow nts ls (visited ?st') (nodeMap ?st') y d"
      if "y \<in> set (take n (queue ?st'))" for y
    proof -
      from that n have "y \<in> set (take (Suc n) (queue st))" by (simp add: sel qp q)
      from srcsBelow_visit[OF D(5)[OF this] nv] show ?thesis by (simp add: sel)
    qed
    show "srcsBelow nts ls (visited ?st') (nodeMap ?st') y (Suc d)"
      if "y \<in> set (drop n (queue ?st'))" for y
    proof -
      from that n have "y \<in> set (drop (Suc n) (queue st)) \<or> y \<in> set p"
        by (auto simp: sel qp q)
      then show ?thesis
      proof
        assume "y \<in> set (drop (Suc n) (queue st))"
        from srcsBelow_visit[OF D(6)[OF this] nv] show ?thesis by (simp add: sel)
      next
        assume "y \<in> set p"
        then have "getOrZero (inDegree st) y = int (fromTo nts ls x y)" by (simp add: sp)
        then have "incoming nts ls ?V' y = 0"
          using D(2)[of y] incoming_insert[OF nv, of nts ls y] by simp
        from srcsBelow_of_zero[OF this, of d ?M'] vis_dep show ?thesis by (simp add: sel)
      qed
    qed
    show "y \<in> visited ?st' \<or> y \<in> set (queue ?st')"
      if y: "y \<in> fst ` set (nodeMap ?st')" "incoming nts ls (visited ?st') y = 0" for y
    proof (cases "incoming nts ls ?V y = 0")
      case True
      from y(1) have "y \<in> fst ` set ?M" by (simp add: sel keys)
      from D(7)[OF this True] show ?thesis by (auto simp: sel qp q)
    next
      case False
      from y(2) have z: "incoming nts ls ?V' y = 0" by (simp add: sel)
      then have "incoming nts ls ?V y = fromTo nts ls x y"
        using incoming_insert[OF nv, of nts ls y] by simp
      with False have "0 < fromTo nts ls x y"
        "getOrZero (inDegree st) y = int (fromTo nts ls x y)"
        using D(2)[of y] by simp_all
      then have "y \<in> ?V' \<or> y \<in> set p" unfolding sp by blast
      then show ?thesis by (auto simp: sel qp)
    qed
  qed
qed

lemma layerInv_visitNode:
  assumes "layerInv nts ls d (Suc n) st"
  shows "layerInv nts ls d n (visitNode nts ls d st)"
proof -
  from layerInvD(1)[OF assms] obtain x rest where q: "queue st = x # rest"
    by (cases "queue st") auto
  show ?thesis
  proof (cases "map_of (nodeMap st) x = None \<or> x \<in> visited st")
    case True
    from layerInv_skip[OF assms q True] show ?thesis
      by (simp add: visitNode_skip[OF q True])
  next
    case False
    then obtain nd where "map_of (nodeMap st) x = Some nd" "x \<notin> visited st" by auto
    then show ?thesis by (rule layerInv_visit[OF assms q])
  qed
qed

lemma layerInv_processLevel:
  "layerInv nts ls d n st \<Longrightarrow> layerInv nts ls d 0 (processLevel nts ls d n st)"
  by (induction n arbitrary: st) (simp_all add: layerInv_visitNode)

lemma layerInv_next_level:
  assumes "layerInv nts ls d 0 st"
  shows "layerInv nts ls (Suc d) (length (queue st)) st"
proof (rule layerInvI)
  note D = layerInvD[OF assms]
  show "length (queue st) \<le> length (queue st)" by simp
  show "getOrZero (inDegree st) y = int (incoming nts ls (visited st) y)" for y by (rule D(2))
  show "\<exists>k\<le>Suc d. hasDepth (nodeMap st) z k" if "z \<in> visited st" for z
    using D(3)[OF that] by (auto intro: le_SucI)
  show "String nts (source l) \<in> visited st \<and>
        (\<exists>ks kt. hasDepth (nodeMap st) (String nts (source l)) ks \<and>
                 hasDepth (nodeMap st) (String nts (target l)) kt \<and> ks < kt)"
    if "l \<in> set ls" "String nts (target l) \<in> visited st" for l
    by (rule D(4)[OF that])
  show "srcsBelow nts ls (visited st) (nodeMap st) y (Suc d)"
    if "y \<in> set (take (length (queue st)) (queue st))" for y
    using D(6)[of y] that by simp
  show "srcsBelow nts ls (visited st) (nodeMap st) y (Suc (Suc d))"
    if "y \<in> set (drop (length (queue st)) (queue st))" for y
    using that by simp
  show "y \<in> visited st \<or> y \<in> set (queue st)"
    if "y \<in> fst ` set (nodeMap st)" "incoming nts ls (visited st) y = 0" for y
    by (rule D(7)[OF that])
qed

lemma layerInv_bfsLoop:
  "layerInv nts ls d (length (queue st)) st \<Longrightarrow>
   \<exists>d'. layerInv nts ls d' 0 (bfsLoop nts ls d st) \<and> queue (bfsLoop nts ls d st) = []"
proof (induction nts ls d st rule: bfsLoop.induct)
  case (1 nts ls d st)
  show ?case
  proof (cases "queue st = []")
    case True
    then show ?thesis using "1.prems" by (auto simp: bfsLoop.simps)
  next
    case False
    let ?st' = "processLevel nts ls d (length (queue st)) st"
    have "layerInv nts ls (Suc d) (length (queue ?st')) ?st'"
      by (rule layerInv_next_level[OF layerInv_processLevel[OF "1.prems"]])
    from "1.IH"[OF False this] show ?thesis
      using False by (simp add: bfsLoop.simps[of nts ls d st])
  qed
qed

lemma getOrZero_all_zero: "\<forall>p\<in>set D. snd p = 0 \<Longrightarrow> getOrZero D y = 0"
  by (auto simp: getOrZero_def split: option.splits dest!: map_of_SomeD)

lemma initial_inDegree_zero:
  "\<forall>p\<in>set D. snd p = 0 \<Longrightarrow>
   \<forall>p\<in>set (foldl (\<lambda>m n. AList.update (name n) (0::int) m) D ns). snd p = 0"
proof (induction ns arbitrary: D)
  case Nil
  then show ?case by simp
next
  case (Cons n ns)
  have "\<forall>p\<in>set (AList.update (name n) 0 D). snd p = 0"
    using Cons.prems set_update_subset_insert[of "name n" 0 D] by auto
  from Cons.IH[OF this] show ?case by simp
qed

lemma countIncoming_total:
  "getOrZero (foldl (countIncoming nts) D ls) y
     = getOrZero D y + int (length (filter (\<lambda>l. String nts (target l) = y) ls))"
  by (induction ls arbitrary: D) (auto simp: countIncoming_def Let_def getOrZero_update)

lemma distinct_fold_update:
  "distinct (map fst M) \<Longrightarrow> distinct (map fst (foldl (\<lambda>m n. AList.update (k n) (f n) m) M ns))"
  by (induction ns arbitrary: M) (simp_all add: distinct_update)

lemma distinct_countIncoming:
  "distinct (map fst D) \<Longrightarrow> distinct (map fst (foldl (countIncoming nts) D ls))"
  by (induction ls arbitrary: D) (simp_all add: countIncoming_def Let_def distinct_update)

lemma getOrZero_distinct:
  "distinct (map fst D) \<Longrightarrow> (y, v) \<in> set D \<Longrightarrow> getOrZero D y = v"
  by (simp add: getOrZero_def)

lemma layerInv_initial:
  fixes ns ls nts
  defines "A \<equiv> foldl (countIncoming nts) (foldl (\<lambda>m n. AList.update (name n) (0::int) m) [] ns) ls"
  defines "M0 \<equiv> foldl (\<lambda>m n. AList.update (name n) (n\<lparr>depth := Some (Num 0)\<rparr>) m) [] ns"
  defines "st \<equiv> \<lparr>nodeMap = M0, visited = {}, inDegree = A,
                   queue = map fst (filter (\<lambda>p. snd p = 0) A)\<rparr>"
  shows "layerInv nts ls 0 (length (queue st)) st"
proof (rule layerInvI)
  let ?D0 = "foldl (\<lambda>m n. AList.update (name n) (0::int) m) [] ns"
  have z: "getOrZero ?D0 y = 0" for y
    by (rule getOrZero_all_zero) (rule initial_inDegree_zero, simp)
  have deg: "getOrZero A y = int (incoming nts ls {} y)" for y
    by (simp add: A_def countIncoming_total z incoming_def)
  have dist: "distinct (map fst A)"
    unfolding A_def by (intro distinct_countIncoming distinct_fold_update) simp
  have keysA: "name ` set ns \<subseteq> fst ` set A"
    by (simp add: A_def countIncoming_keys initial_nodeMap_keys)
  have keysM: "fst ` set M0 = name ` set ns"
    by (simp add: M0_def initial_nodeMap_keys)
  show "length (queue st) \<le> length (queue st)" by simp
  show "getOrZero (inDegree st) y = int (incoming nts ls (visited st) y)" for y
    by (simp add: st_def deg)
  show "\<exists>k\<le>0. hasDepth (nodeMap st) z k" if "z \<in> visited st" for z
    using that by (simp add: st_def)
  show "String nts (source l) \<in> visited st \<and>
        (\<exists>ks kt. hasDepth (nodeMap st) (String nts (source l)) ks \<and>
                 hasDepth (nodeMap st) (String nts (target l)) kt \<and> ks < kt)"
    if "l \<in> set ls" "String nts (target l) \<in> visited st" for l
    using that by (simp add: st_def)
  show "srcsBelow nts ls (visited st) (nodeMap st) y 0"
    if "y \<in> set (take (length (queue st)) (queue st))" for y
  proof -
    from that have "(y, 0) \<in> set A" by (auto simp: st_def)
    from getOrZero_distinct[OF dist this] deg[of y]
    have "incoming nts ls {} y = 0" by simp
    then show ?thesis by (simp add: incoming_zero srcsBelow_def st_def)
  qed
  show "srcsBelow nts ls (visited st) (nodeMap st) y (Suc 0)"
    if "y \<in> set (drop (length (queue st)) (queue st))" for y
    using that by simp
  show "y \<in> visited st \<or> y \<in> set (queue st)"
    if y: "y \<in> fst ` set (nodeMap st)" "incoming nts ls (visited st) y = 0" for y
  proof -
    from y(1) keysM keysA have "y \<in> fst ` set A" by (auto simp: st_def)
    then obtain v where v: "(y, v) \<in> set A" by force
    from getOrZero_distinct[OF dist v] deg[of y] y(2) have "v = 0" by (simp add: st_def)
    with v have "y \<in> set (queue st)" by (force simp: st_def)
    then show ?thesis ..
  qed
qed

lemma distinct_visitNode:
  assumes "distinct (map fst (nodeMap st))"
  shows "distinct (map fst (nodeMap (visitNode nts ls d st)))"
  using assms
  by (auto simp: visitNode_def Let_def distinct_update split: list.splits option.splits)

lemma ancestors_visited:
  assumes complete: "\<And>y. y \<in> K \<Longrightarrow> incoming nts ls V y = 0 \<Longrightarrow> y \<in> V"
    and good: "\<forall>x. (x, t) \<in> (linkRel nts ls)\<^sup>* \<longrightarrow> x \<in> K \<and> (x, x) \<notin> (linkRel nts ls)\<^sup>+"
  shows "t \<in> V"
proof -
  let ?E = "linkRel nts ls"
  let ?r = "{(a, b). (a, b) \<in> ?E \<and> (b, t) \<in> ?E\<^sup>*}"
  have "finite ?E" by (simp add: linkRel_def)
  moreover have sub: "?r \<subseteq> ?E" by auto
  ultimately have fin: "finite ?r" by (rule rev_finite_subset)
  have "acyclic ?r"
  proof (rule acyclicI, intro allI notI)
    fix a assume a: "(a, a) \<in> ?r\<^sup>+"
    then have "(a, a) \<in> ?E\<^sup>+" using trancl_mono[OF _ sub] by blast
    moreover from a obtain z where "(a, z) \<in> ?r" by (auto dest: tranclD)
    then have "(a, t) \<in> ?E\<^sup>*" by (auto intro: converse_rtrancl_into_rtrancl)
    ultimately show False using good by blast
  qed
  with fin have "wf ?r" by (rule finite_acyclic_wf)
  then have "(b, t) \<in> ?E\<^sup>* \<longrightarrow> b \<in> V" for b
  proof (induction b rule: wf_induct_rule)
    case (less b)
    show ?case
    proof
      assume bt: "(b, t) \<in> ?E\<^sup>*"
      then have bK: "b \<in> K" using good by blast
      have "incoming nts ls V b = 0"
        unfolding incoming_zero
      proof (intro ballI impI)
        fix l assume l: "l \<in> set ls" "String nts (target l) = b"
        then have e: "(String nts (source l), b) \<in> ?E" by (force simp: linkRel_def)
        then have "(String nts (source l), b) \<in> ?r" using bt by simp
        moreover have "(String nts (source l), t) \<in> ?E\<^sup>*"
          using e bt by (rule converse_rtrancl_into_rtrancl)
        ultimately show "String nts (source l) \<in> V" using less by blast
      qed
      with bK show "b \<in> V" by (rule complete)
    qed
  qed
  then show ?thesis by blast
qed

lemma layering_final:
  fixes ns ls nts
  defines "A \<equiv> foldl (countIncoming nts) (foldl (\<lambda>m n. AList.update (name n) (0::int) m) [] ns) ls"
  defines "M0 \<equiv> foldl (\<lambda>m n. AList.update (name n) (n\<lparr>depth := Some (Num 0)\<rparr>) m) [] ns"
  defines "fin \<equiv> bfsLoop nts ls 0 \<lparr>nodeMap = M0, visited = {}, inDegree = A,
                   queue = map fst (filter (\<lambda>p. snd p = 0) A)\<rparr>"
  shows "calculateNodeDepths nts ns ls = map snd (nodeMap fin)"
    and "distinct (map fst (nodeMap fin))"
    and "depthsAssigned (nodeMap fin)"
    and "fst ` set (nodeMap fin) = name ` set ns"
    and "\<exists>d. layerInv nts ls d 0 fin"
    and "queue fin = []"
proof -
  let ?st = "\<lparr>nodeMap = M0, visited = {}, inDegree = A,
              queue = map fst (filter (\<lambda>p. snd p = 0) A)\<rparr>"
  show "calculateNodeDepths nts ns ls = map snd (nodeMap fin)"
    by (simp add: calculateNodeDepths_def Let_def fin_def M0_def A_def)
  have "distinct (map fst M0)" unfolding M0_def by (rule distinct_fold_update) simp
  then show "distinct (map fst (nodeMap fin))"
    using bfsLoop_preserves[of "\<lambda>st. distinct (map fst (nodeMap st))" nts ls ?st 0]
      distinct_visitNode
    by (simp add: fin_def)
  have "depthsAssigned M0 \<and> fst ` set M0 = name ` set ns"
    using depthsAssigned_initial[of "[]" ns]
    by (simp add: M0_def initial_nodeMap_keys depthsAssigned_def)
  then have "depthsAssigned (nodeMap fin) \<and> fst ` set (nodeMap fin) = name ` set ns"
    using bfsLoop_preserves[of "\<lambda>st. depthsAssigned (nodeMap st) \<and>
        fst ` set (nodeMap st) = name ` set ns" nts ls ?st 0] assigned_visitNode
    by (simp add: fin_def)
  then show "depthsAssigned (nodeMap fin)" "fst ` set (nodeMap fin) = name ` set ns"
    by blast+
  have "layerInv nts ls 0 (length (queue ?st)) ?st"
    unfolding A_def M0_def by (rule layerInv_initial)
  from layerInv_bfsLoop[OF this]
  show "\<exists>d. layerInv nts ls d 0 fin" "queue fin = []"
    unfolding fin_def by blast+
qed

text \<open>
  C3, as amended. For every link \<open>s \<rightarrow> t\<close> such that every name from which \<open>t\<close> can be
  reached along links (\<open>t\<close> itself included) is in the node collection and lies on no
  cycle, the result has a node for \<open>s\<close> and a node for \<open>t\<close>, and the depth of \<open>t\<close> is at
  least the depth of \<open>s\<close> plus 1.
\<close>

theorem calculateNodeDepths_layering:
  assumes l: "l \<in> set ls"
    and good: "\<forall>x. (x, String nts (target l)) \<in> (linkRel nts ls)\<^sup>* \<longrightarrow>
                 x \<in> name ` set ns \<and> (x, x) \<notin> (linkRel nts ls)\<^sup>+"
  shows "String nts (source l) \<in> name ` set (calculateNodeDepths nts ns ls) \<and>
         String nts (target l) \<in> name ` set (calculateNodeDepths nts ns ls) \<and>
         (\<forall>s\<in>set (calculateNodeDepths nts ns ls). \<forall>t\<in>set (calculateNodeDepths nts ns ls).
            name s = String nts (source l) \<and> name t = String nts (target l) \<longrightarrow>
            (\<exists>ks kt::nat. depth s = Some (Num (of_nat ks)) \<and> depth t = Some (Num (of_nat kt)) \<and>
                          ks + 1 \<le> kt))"
proof -
  let ?S = "String nts (source l)" and ?T = "String nts (target l)"
  define fin where "fin = bfsLoop nts ls 0
     \<lparr>nodeMap = foldl (\<lambda>m n. AList.update (name n) (n\<lparr>depth := Some (Num 0)\<rparr>) m) [] ns,
      visited = {},
      inDegree = foldl (countIncoming nts) (foldl (\<lambda>m n. AList.update (name n) (0::int) m) [] ns) ls,
      queue = map fst (filter (\<lambda>p. snd p = 0)
                (foldl (countIncoming nts) (foldl (\<lambda>m n. AList.update (name n) (0::int) m) [] ns) ls))\<rparr>"
  note F = layering_final[where nts = nts and ns = ns and ls = ls, folded fin_def]
  let ?M = "nodeMap fin" and ?V = "visited fin"
  from F(5) obtain d where inv: "layerInv nts ls d 0 fin" by blast
  note D = layerInvD[OF inv]
  have complete: "y \<in> ?V" if "y \<in> name ` set ns" "incoming nts ls ?V y = 0" for y
    using D(7)[of y] that F(4) F(6) by simp
  have "?T \<in> ?V" by (rule ancestors_visited[OF complete good])
  from D(4)[OF l this] obtain ks kt where
    dS: "hasDepth ?M ?S ks" and dT: "hasDepth ?M ?T kt" and lt: "ks < kt" by blast
  have entry: "map_of ?M (name n) = Some n" if "n \<in> set (calculateNodeDepths nts ns ls)" for n
  proof -
    from that obtain k where k: "(k, n) \<in> set ?M" by (auto simp: F(1))
    with F(3) have "name n = k" by (auto simp: depthsAssigned_def)
    with k F(2) show ?thesis by simp
  qed
  have mem: "x \<in> name ` set (calculateNodeDepths nts ns ls)" if "hasDepth ?M x k" for x k
  proof -
    from that obtain n where n: "map_of ?M x = Some n" by (auto simp: hasDepth_def)
    then have "(x, n) \<in> set ?M" by (rule map_of_SomeD)
    moreover from this F(3) have "name n = x" by (auto simp: depthsAssigned_def)
    ultimately show ?thesis unfolding F(1) by force
  qed
  have dep: "depth n = Some (Num (of_nat k))"
    if "n \<in> set (calculateNodeDepths nts ns ls)" "hasDepth ?M (name n) k" for n k
    using entry[OF that(1)] that(2) by (auto simp: hasDepth_def)
  have "\<exists>ks kt::nat. depth s = Some (Num (of_nat ks)) \<and> depth t = Some (Num (of_nat kt)) \<and>
                          ks + 1 \<le> kt"
    if "s \<in> set (calculateNodeDepths nts ns ls)" "t \<in> set (calculateNodeDepths nts ns ls)"
       "name s = ?S" "name t = ?T" for s t
  proof -
    have "depth s = Some (Num (of_nat ks))" using dep[OF that(1)] dS that(3) by simp
    moreover have "depth t = Some (Num (of_nat kt))" using dep[OF that(2)] dT that(4) by simp
    ultimately show ?thesis using lt by (intro exI[of _ ks] exI[of _ kt]) simp
  qed
  then show ?thesis using mem[OF dS] mem[OF dT] by blast
qed

theorem calculateNodeDepths_layering_witness:
  "map (\<lambda>n. (name n, depth n)) (calculateNodeDepths standInNumberToString chainNodes chainLinks)
     = [(''A'', Some (Num 0)), (''B'', Some (Num 1)), (''C'', Some (Num 2))] \<and>
   ''C'' \<in> name ` set (calculateNodeDepths standInNumberToString chainNodes chainLinks)"
proof -
  let ?E = "linkRel standInNumberToString chainLinks"
  let ?l = "mkLink ''B'' ''C'' 3"
  have l: "?l \<in> set chainLinks" by (simp add: chainLinks_def)
  have tl: "String standInNumberToString (target ?l) = ''C''" by (simp add: mkLink_def)
  have good: "\<forall>x. (x, String standInNumberToString (target ?l)) \<in> ?E\<^sup>* \<longrightarrow>
                  x \<in> name ` set chainNodes \<and> (x, x) \<notin> ?E\<^sup>+"
    unfolding tl
  proof (intro allI impI)
    fix x assume "(x, ''C'') \<in> ?E\<^sup>*"
    then have "x = ''C'' \<or> (x, ''C'') \<in> ?E\<^sup>+" by (auto dest: rtranclD)
    then have "x = ''C'' \<or> x \<in> Domain ?E" by (auto dest: tranclD)
    moreover have "Domain ?E = {''A'', ''B''}"
      by (auto simp: linkRel_def chainLinks_def mkLink_def)
    ultimately have x: "x = ''A'' \<or> x = ''B'' \<or> x = ''C''" by auto
    have "(''A'', ''A'') \<notin> ?E\<^sup>+ \<and> (''B'', ''B'') \<notin> ?E\<^sup>+ \<and> (''C'', ''C'') \<notin> ?E\<^sup>+"
      by code_simp
    moreover have "name ` set chainNodes = {''A'', ''B'', ''C''}"
      by (simp add: chainNodes_def mkNode_def)
    ultimately show "x \<in> name ` set chainNodes \<and> (x, x) \<notin> ?E\<^sup>+"
      using x by auto
  qed
  have v: "map (\<lambda>n. (name n, depth n)) (calculateNodeDepths standInNumberToString chainNodes chainLinks)
     = [(''A'', Some (Num 0)), (''B'', Some (Num 1)), (''C'', Some (Num 2))]"
    by code_simp
  from calculateNodeDepths_layering[OF l good]
  have "''C'' \<in> name ` set (calculateNodeDepths standInNumberToString chainNodes chainLinks)"
    unfolding tl by blast
  with v show ?thesis by (rule conjI)
qed

text \<open>
  C3 as stated fails: below, A has in-degree zero and the link A->T reaches T without
  touching a cycle (neither A nor T lies on one), but T also has a link from the self-loop
  node C, so its in-degree never reaches 0. T keeps depth 0, which is not the depth of A
  plus 1.
\<close>

theorem cycle_feeding_target_blocks_layering:
  "map (\<lambda>n. (name n, depth n))
     (calculateNodeDepths standInNumberToString [mkNode ''A'', mkNode ''T'', mkNode ''C'']
        [mkLink ''A'' ''T'' 1, mkLink ''C'' ''C'' 1, mkLink ''C'' ''T'' 1])
     = [(''A'', Some (Num 0)), (''T'', Some (Num 0)), (''C'', Some (Num 0))] \<and>
   ''A'' \<notin> snd ` linkRel standInNumberToString
                   [mkLink ''A'' ''T'' 1, mkLink ''C'' ''C'' 1, mkLink ''C'' ''T'' 1] \<and>
   (''A'', ''T'') \<in> linkRel standInNumberToString
                   [mkLink ''A'' ''T'' 1, mkLink ''C'' ''C'' 1, mkLink ''C'' ''T'' 1] \<and>
   (''A'', ''A'') \<notin> (linkRel standInNumberToString
                   [mkLink ''A'' ''T'' 1, mkLink ''C'' ''C'' 1, mkLink ''C'' ''T'' 1])\<^sup>+ \<and>
   (''T'', ''T'') \<notin> (linkRel standInNumberToString
                   [mkLink ''A'' ''T'' 1, mkLink ''C'' ''C'' 1, mkLink ''C'' ''T'' 1])\<^sup>+"
  by code_simp

end
